theory Spec2Isabelle
  imports Complex_Main "HOL-Library.Multiset" "HOL-Library.Sublist"
begin

section \<open>The simulated request (0203JS/0204fetch5APIs.js, lines 3 to 25)\<close>

text \<open>
  JavaScript strings are modelled as \<^typ>\<open>string\<close>.  The async function \<open>mockFetch\<close> and
  the async function \<open>fetchWithRetry\<close> either resolve with a string or throw
  \<open>new Error(message)\<close>; the promise they return settles accordingly.
\<close>

datatype 'a settlement = Resolves 'a | Throws string

text \<open>\<open>String.prototype.includes\<close>: does \<open>t\<close> occur in \<open>s\<close> as a contiguous substring?\<close>

fun includes_js :: "string \<Rightarrow> string \<Rightarrow> bool" where
  "includes_js [] t = (t = [])"
| "includes_js (c # cs) t = (take (length t) (c # cs) = t \<or> includes_js cs t)"

text \<open>
  The numeric literals \<open>0.2\<close> and \<open>0.3\<close> of \<open>mockFetch\<close> denote the IEEE-754 doubles
  nearest to them, and \<open>Math.random()\<close> returns a double in \<open>[0, 1)\<close>; every double is a
  rational number, so the comparison \<open>random < 0.2\<close> is the comparison of rationals below.
\<close>

definition js_0_2 :: rat where
  "js_0_2 = 3602879701896397 / 18014398509481984"

definition js_0_3 :: rat where
  "js_0_3 = 5404319552844595 / 18014398509481984"

text \<open>
  \<open>mockFetch(url)\<close> draws \<open>random = Math.random()\<close>, waits between 500 and 1500 ms and then
  throws or returns.  The draw is an argument of the model; the waiting time only decides
  when the promise settles, which the scheduler below leaves open.
\<close>

definition mockFetch :: "string \<Rightarrow> rat \<Rightarrow> string settlement" where
  "mockFetch url random =
     (if random < js_0_2 then Throws ''503 Service Unavailable''
      else if random < js_0_3 then Throws ''404 Not Found''
      else Resolves (''Response data from '' @ url))"

section \<open>Retry with exponential backoff (fetchWithRetry, lines 29 to 49)\<close>

text \<open>The cross mark U+274C that opens the final message, as its UTF-8 bytes.\<close>

definition cross_mark :: string where
  "cross_mark = [CHR 0xE2, CHR 0x9D, CHR 0x8C]"

definition finalFailure :: "string \<Rightarrow> string \<Rightarrow> string" where
  "finalFailure url message = cross_mark @ '' Final Failure for '' @ url @ '': '' @ message"

definition isServerError :: "string \<Rightarrow> bool" where
  "isServerError message = includes_js message ''50''"

text \<open>
  What one call of \<open>fetchWithRetry\<close> does: how its promise settles, how many times it
  invoked the request, and the arguments of its \<open>wait(delay)\<close> calls in order.
\<close>

record attempt_log =
  settles :: "string settlement"
  calls :: nat
  waits :: "rat list"

text \<open>
  \<open>fetchWithRetry(url, retries = 3, delay = 1000)\<close>.  The request is the parameter
  \<open>fetch\<close>: \<open>fetch url k\<close> is how the \<open>k\<close>-th invocation of the request for this target
  settles (the source calls \<open>mockFetch(url)\<close>, see \<open>request\<close> below).  The recursive
  call passes \<open>retries - 1\<close> and \<open>delay * 2\<close>.  Both are JavaScript numbers: \<open>retries\<close> is
  an integer count, and \<open>delay\<close> is a finite double, that is a rational number, whose
  doubling is exact as long as it does not overflow (more than a thousand doublings
  from the default of 1000 ms).
\<close>

function fetchWithRetry ::
  "(string \<Rightarrow> nat \<Rightarrow> string settlement) \<Rightarrow> nat \<Rightarrow> string \<Rightarrow> int \<Rightarrow> rat \<Rightarrow> attempt_log" where
  "fetchWithRetry fetch k url retries delay =
     (case fetch url k of
        Resolves data \<Rightarrow> \<lparr>settles = Resolves data, calls = 1, waits = []\<rparr>
      | Throws message \<Rightarrow>
          if retries > 0 \<and> isServerError message then
            (let r = fetchWithRetry fetch (Suc k) url (retries - 1) (delay * 2)
             in r\<lparr>calls := Suc (calls r), waits := delay # waits r\<rparr>)
          else \<lparr>settles = Throws (finalFailure url message), calls = 1, waits = []\<rparr>)"
  by pat_completeness auto
termination
  by (relation "measure (\<lambda>(fetch, k, url, retries, delay). nat retries)") auto

text \<open>The backoff policy in the words of the specification: \<open>baseDelay * 2^attemptIndex\<close>.\<close>

definition backoff_delay :: "rat \<Rightarrow> nat \<Rightarrow> rat" where
  "backoff_delay baseDelay attemptIndex = baseDelay * 2 ^ attemptIndex"

text \<open>A request that fails with a retryable error on every invocation from the \<open>k\<close>-th on.\<close>

definition always_transient :: "(string \<Rightarrow> nat \<Rightarrow> string settlement) \<Rightarrow> string \<Rightarrow> nat \<Rightarrow> bool" where
  "always_transient fetch url k =
     (\<forall>j. k \<le> j \<longrightarrow> (\<exists>message. fetch url j = Throws message \<and> isServerError message))"

text \<open>The request of the source: \<open>mockFetch\<close> fed with the draws of one target.\<close>

definition request :: "(nat \<Rightarrow> rat) \<Rightarrow> string \<Rightarrow> nat \<Rightarrow> string settlement" where
  "request draws url k = mockFetch url (draws k)"

section \<open>Bounded concurrency (fetchWithConcurrency, lines 53 to 85)\<close>

text \<open>
  \<open>fetchWithConcurrency\<close> is an async function whose body is interleaved with the
  operations it starts.  It is modelled as an event system over the state of its two
  arrays: an event is either one synchronous stretch of the body (\<open>Advance\<close>) or the
  settlement of one started operation together with the callbacks attached to it
  (\<open>Settle\<close>).  An operation settles from a timer callback of \<open>mockFetch\<close>, so it never
  settles while the body runs, and the microtasks that follow a settlement (the chain of
  the promise, then the resumption of the body) run before the next timer callback.
  Which pending operation settles next is left open: the properties below hold for
  every sequence of events.

  The entries pushed on \<open>results\<close>: \<open>{ status: "fulfilled", value: data }\<close> and
  \<open>{ status: "rejected", reason: err.message }\<close>.
\<close>

datatype outcome = Fulfilled string | Rejected string

text \<open>
  A promise \<open>p\<close> created by the loop is identified by its number in creation order,
  together with the \<open>url\<close> its callbacks close over.
\<close>

type_synonym promise = "nat \<times> string"

text \<open>
  Where the body of \<open>fetchWithConcurrency\<close> stands: running synchronously at the head of
  the loop, suspended in \<open>await Promise.race(executing)\<close> or in
  \<open>await Promise.all(executing)\<close> (with the promises that were in the array when the
  combinator was called), returned, or rejected by an error thrown at an \<open>await\<close>.
\<close>

datatype phase = Running | AwaitRace "promise list" | AwaitAll "promise list" | Returned
  | Failed string

text \<open>
  The state: the urls the \<open>for...of\<close> has not reached, the number of promises created, the
  operations started and not yet settled, and the two arrays of the source.
\<close>

record state =
  todo :: "string list"
  started :: nat
  pending :: "promise list"
  executing :: "promise list"
  results :: "outcome list"
  phase :: phase

text \<open>
  The arguments \<open>urls\<close> and \<open>limit\<close>, and the results of \<open>Math.random()\<close> in \<open>mockFetch\<close>:
  \<open>draws p k\<close> is the draw of the \<open>k\<close>-th request made for promise number \<open>p\<close>.  Every
  draw is an arbitrary input, so giving each promise its own sequence of draws covers
  every order in which the concurrent operations call \<open>Math.random()\<close>.
\<close>

record config =
  urls :: "string list"
  limit :: int
  draws :: "nat \<Rightarrow> nat \<Rightarrow> rat"

text \<open>\<open>Array.prototype.indexOf\<close> (\<open>-1\<close> when absent) and \<open>Array.prototype.splice\<close>.\<close>

fun indexOf :: "'a list \<Rightarrow> 'a \<Rightarrow> int" where
  "indexOf [] x = - 1"
| "indexOf (y # ys) x =
     (if y = x then 0 else (let i = indexOf ys x in if i < 0 then - 1 else i + 1))"

definition splice_js :: "'a list \<Rightarrow> int \<Rightarrow> int \<Rightarrow> 'a list" where
  "splice_js xs start deleteCount =
     (let len = int (length xs);
          actualStart = (if start < 0 then max (len + start) 0 else min start len);
          actualDeleteCount = min (max deleteCount 0) (len - actualStart)
      in take (nat actualStart) xs @ drop (nat (actualStart + actualDeleteCount)) xs)"

text \<open>The three callbacks attached to \<open>fetchWithRetry(url)\<close>.\<close>

definition on_fulfilled :: "string \<Rightarrow> state \<Rightarrow> state" where
  "on_fulfilled data st = st\<lparr>results := results st @ [Fulfilled data]\<rparr>"

definition on_rejected :: "string \<Rightarrow> state \<Rightarrow> state" where
  "on_rejected message st = st\<lparr>results := results st @ [Rejected message]\<rparr>"

definition on_finally :: "promise \<Rightarrow> state \<Rightarrow> state" where
  "on_finally p st = st\<lparr>executing := splice_js (executing st) (indexOf (executing st) p) 1\<rparr>"

text \<open>
  \<open>.then(f)\<close>, \<open>.catch(g)\<close> and \<open>.finally(h)\<close> for callbacks that return normally: how the
  derived promise settles and what the callback did to the state.
\<close>

definition then_js ::
  "('a \<Rightarrow> state \<Rightarrow> state) \<Rightarrow> 'a settlement \<times> state \<Rightarrow> unit settlement \<times> state" where
  "then_js f x =
     (case x of (Resolves v, st) \<Rightarrow> (Resolves (), f v st) | (Throws e, st) \<Rightarrow> (Throws e, st))"

definition catch_js ::
  "(string \<Rightarrow> state \<Rightarrow> state) \<Rightarrow> unit settlement \<times> state \<Rightarrow> unit settlement \<times> state" where
  "catch_js g x =
     (case x of (Resolves v, st) \<Rightarrow> (Resolves v, st) | (Throws e, st) \<Rightarrow> (Resolves (), g e st))"

definition finally_js ::
  "(state \<Rightarrow> state) \<Rightarrow> unit settlement \<times> state \<Rightarrow> unit settlement \<times> state" where
  "finally_js h x = (case x of (r, st) \<Rightarrow> (r, h st))"

text \<open>
  \<open>fetchWithRetry(url)\<close> as the loop calls it (defaults \<open>retries = 3\<close>, \<open>delay = 1000\<close>), and
  the chain \<open>p = fetchWithRetry(url).then(...).catch(...).finally(...)\<close> run when the
  operation settles.
\<close>

definition operation :: "config \<Rightarrow> promise \<Rightarrow> attempt_log" where
  "operation cfg p = fetchWithRetry (request (draws cfg (fst p))) 0 (snd p) 3 1000"

definition promise_chain :: "config \<Rightarrow> promise \<Rightarrow> state \<Rightarrow> unit settlement \<times> state" where
  "promise_chain cfg p st =
     finally_js (on_finally p)
       (catch_js on_rejected (then_js on_fulfilled (settles (operation cfg p), st)))"

text \<open>
  One synchronous stretch of the body, from the head of the loop to the next \<open>await\<close> or
  to the next iteration.  \<open>Promise.race\<close> resumes the body as soon as one promise of its
  argument has settled and never settles on an empty argument; \<open>Promise.all\<close> resumes it
  when all have.
\<close>

definition advance :: "config \<Rightarrow> state \<Rightarrow> state" where
  "advance cfg st =
     (case todo st of
        [] \<Rightarrow>
          (let snap = executing st
           in st\<lparr>phase := (if list_all (\<lambda>q. q \<notin> set (pending st)) snap then Returned
                           else AwaitAll snap)\<rparr>)
      | url # rest \<Rightarrow>
          (let p = (started st, url);
               st1 = st\<lparr>todo := rest, started := Suc (started st),
                        pending := pending st @ [p], executing := executing st @ [p]\<rparr>
           in if limit cfg \<le> int (length (executing st1))
              then (let snap = executing st1
                    in st1\<lparr>phase := (if list_ex (\<lambda>q. q \<notin> set (pending st1)) snap then Running
                                     else AwaitRace snap)\<rparr>)
              else st1))"

text \<open>
  The operation of promise \<open>p\<close> settles: its chain runs, and the suspended body is resumed
  (or rejected) if the combinator it awaits settles with it.
\<close>

definition settle :: "config \<Rightarrow> promise \<Rightarrow> state \<Rightarrow> state" where
  "settle cfg p st =
     (case promise_chain cfg p (st\<lparr>pending := remove1 p (pending st)\<rparr>) of
        (r, st1) \<Rightarrow>
          (case phase st of
             AwaitRace snap \<Rightarrow>
               if p \<in> set snap
               then (case r of Resolves u \<Rightarrow> st1\<lparr>phase := Running\<rparr>
                             | Throws e \<Rightarrow> st1\<lparr>phase := Failed e\<rparr>)
               else st1
           | AwaitAll snap \<Rightarrow>
               if p \<in> set snap
               then (case r of
                       Throws e \<Rightarrow> st1\<lparr>phase := Failed e\<rparr>
                     | Resolves u \<Rightarrow>
                         if list_all (\<lambda>q. q \<notin> set (pending st1)) snap
                         then st1\<lparr>phase := Returned\<rparr> else st1)
               else st1
           | _ \<Rightarrow> st1))"

text \<open>
  Events: the body runs (only when it is not suspended), or a started operation settles
  (only while the body is not running: JavaScript runs each stretch to completion).
\<close>

datatype event = Advance | Settle promise

fun step :: "config \<Rightarrow> event \<Rightarrow> state \<Rightarrow> state option" where
  "step cfg Advance st = (if phase st = Running then Some (advance cfg st) else None)"
| "step cfg (Settle p) st =
     (if p \<in> set (pending st) \<and> phase st \<noteq> Running then Some (settle cfg p st) else None)"

fun exec :: "config \<Rightarrow> event list \<Rightarrow> state \<Rightarrow> state option" where
  "exec cfg [] st = Some st"
| "exec cfg (ev # evs) st =
     (case step cfg ev st of None \<Rightarrow> None | Some st' \<Rightarrow> exec cfg evs st')"

definition start :: "config \<Rightarrow> state" where
  "start cfg = \<lparr>todo = urls cfg, started = 0, pending = [], executing = [], results = [],
     phase = Running\<rparr>"

text \<open>
  A scheduler \<open>pick\<close> chooses, in each state where the body is suspended, which pending
  operation settles next; \<open>drive\<close> runs the program under it until nothing can happen.
\<close>

definition next_event :: "(state \<Rightarrow> nat) \<Rightarrow> state \<Rightarrow> event option" where
  "next_event pick st =
     (case phase st of
        Running \<Rightarrow> Some Advance
      | Returned \<Rightarrow> None
      | Failed e \<Rightarrow> None
      | _ \<Rightarrow> (if pending st = [] then None
              else Some (Settle (pending st ! (pick st mod length (pending st))))))"

definition work_left :: "state \<Rightarrow> nat" where
  "work_left st =
     3 * length (todo st) + 2 * length (pending st) + (if phase st = Running then 1 else 0)"

text \<open>The entry that the chain of promise \<open>p\<close> pushes on \<open>results\<close>.\<close>

definition outcome_of :: "config \<Rightarrow> promise \<Rightarrow> outcome" where
  "outcome_of cfg p =
     (case settles (operation cfg p) of Resolves data \<Rightarrow> Fulfilled data | Throws message \<Rightarrow> Rejected message)"

text \<open>
  The scheduler loop: it stops when the body has returned or failed, or when the body is
  suspended and no operation is pending (then nothing can ever resume it).  Every event
  uses up some of \<open>work_left\<close>, so the loop ends under every scheduler.
\<close>

function drive :: "config \<Rightarrow> (state \<Rightarrow> nat) \<Rightarrow> state \<Rightarrow> state" where
  "drive cfg pick st =
     (case next_event pick st of
        None \<Rightarrow> st
      | Some ev \<Rightarrow> (case step cfg ev st of None \<Rightarrow> st | Some st' \<Rightarrow> drive cfg pick st'))"
  by pat_completeness auto
termination
proof (relation "measure (\<lambda>(cfg, pick, st). work_left st)")
  show "wf (measure (\<lambda>(cfg, pick, st). work_left st))" by simp
next
  fix cfg :: config and pick :: "state \<Rightarrow> nat" and st ev st'
  assume "next_event pick st = Some ev" and s: "step cfg ev st = Some st'"
  have chain: "promise_chain cfg p s =
      (Resolves (), s\<lparr>results := results s @ [outcome_of cfg p],
                      executing := splice_js (executing s) (indexOf (executing s) p) 1\<rparr>)" for p s
    by (cases "settles (operation cfg p)")
       (simp_all add: promise_chain_def then_js_def catch_js_def finally_js_def
          on_fulfilled_def on_rejected_def on_finally_def outcome_of_def)
  have "work_left st' < work_left st"
  proof (cases ev)
    case Advance
    with s have "phase st = Running" and "st' = advance cfg st"
      by (auto split: if_splits)
    then show ?thesis
      by (cases "todo st") (auto simp: advance_def work_left_def Let_def)
  next
    case (Settle p)
    with s have m: "p \<in> set (pending st)" and r: "phase st \<noteq> Running"
      and e: "st' = settle cfg p st"
      by (auto split: if_splits)
    from m have "0 < length (pending st)"
      by (rule length_pos_if_in_set)
    with m have "length (remove1 p (pending st)) < length (pending st)"
      by (simp add: length_remove1)
    then show ?thesis
      unfolding e using r
      by (auto simp: settle_def chain work_left_def split: phase.splits)
  qed
  then show "((cfg, pick, st'), (cfg, pick, st)) \<in> measure (\<lambda>(cfg, pick, st). work_left st)"
    by simp
qed

text \<open>
  How a call \<open>fetchWithConcurrency(urls, limit)\<close> ends under a scheduler: its promise
  resolves with \<open>results\<close>, rejects, or stays pending for ever.
\<close>

datatype completion = Resolved "outcome list" | RejectedWith string | Hangs

definition fetchWithConcurrency :: "config \<Rightarrow> (state \<Rightarrow> nat) \<Rightarrow> completion" where
  "fetchWithConcurrency cfg pick =
     (case phase (drive cfg pick (start cfg)) of
        Returned \<Rightarrow> Resolved (results (drive cfg pick (start cfg)))
      | Failed e \<Rightarrow> RejectedWith e
      | _ \<Rightarrow> Hangs)"

section \<open>Invariants of the event system\<close>

text \<open>The state after the chain of \<open>p\<close> has run, and after one more promise was pushed.\<close>

definition settled_state :: "config \<Rightarrow> promise \<Rightarrow> state \<Rightarrow> state" where
  "settled_state cfg p st =
     st\<lparr>pending := remove1 p (pending st),
        results := results st @ [outcome_of cfg p],
        executing := splice_js (executing st) (indexOf (executing st) p) 1\<rparr>"

definition pushed :: "state \<Rightarrow> string \<Rightarrow> string list \<Rightarrow> state" where
  "pushed st url rest =
     st\<lparr>todo := rest, started := Suc (started st),
        pending := pending st @ [(started st, url)],
        executing := executing st @ [(started st, url)]\<rparr>"

text \<open>
  The promises in creation order, those created so far, and the bound that the check
  \<open>executing.length >= limit\<close> enforces: \<open>limit\<close>, or 1 when \<open>limit\<close> is smaller.
\<close>

definition promises :: "config \<Rightarrow> promise list" where
  "promises cfg = enumerate 0 (urls cfg)"

definition launched :: "config \<Rightarrow> state \<Rightarrow> promise list" where
  "launched cfg st = take (started st) (promises cfg)"

definition cap :: "config \<Rightarrow> int" where
  "cap cfg = max 1 (limit cfg)"

text \<open>
  The array \<open>executing\<close> holds exactly the operations that have not settled, in the order
  of the input; the entries of \<open>results\<close> and the pending operations account for every
  promise created so far; a target was started only when fewer than \<open>cap\<close> of the earlier
  ones were pending; and each phase of the body bounds the number of pending operations.
\<close>

definition arrays_ok :: "config \<Rightarrow> state \<Rightarrow> bool" where
  "arrays_ok cfg st =
     (todo st = drop (started st) (urls cfg) \<and> started st \<le> length (urls cfg) \<and>
      executing st = pending st \<and> subseq (pending st) (launched cfg st))"

definition accounted :: "config \<Rightarrow> state \<Rightarrow> bool" where
  "accounted cfg st =
     (mset (results st) + image_mset (outcome_of cfg) (mset (pending st)) =
        image_mset (outcome_of cfg) (mset (launched cfg st)))"

definition admitted_ok :: "config \<Rightarrow> state \<Rightarrow> bool" where
  "admitted_ok cfg st =
     (\<forall>j < started st. int (length (filter (\<lambda>q. fst q < j) (pending st))) < cap cfg)"

definition phase_ok :: "config \<Rightarrow> state \<Rightarrow> bool" where
  "phase_ok cfg st =
     (case phase st of
        Running \<Rightarrow> int (length (pending st)) < cap cfg
      | AwaitRace snap \<Rightarrow>
          snap = pending st \<and> pending st \<noteq> [] \<and> limit cfg \<le> int (length (pending st)) \<and>
          int (length (pending st)) \<le> cap cfg
      | AwaitAll snap \<Rightarrow>
          todo st = [] \<and> pending st \<noteq> [] \<and> set (pending st) \<subseteq> set snap \<and>
          int (length (pending st)) < cap cfg
      | Returned \<Rightarrow> todo st = [] \<and> pending st = []
      | Failed e \<Rightarrow> False)"

definition invariant :: "config \<Rightarrow> state \<Rightarrow> bool" where
  "invariant cfg st =
     (arrays_ok cfg st \<and> accounted cfg st \<and> admitted_ok cfg st \<and> phase_ok cfg st)"

section \<open>Reading the url back from an entry\<close>

text \<open>
  The value of a fulfilled entry is the text of \<open>mockFetch\<close> followed by the url, and the
  reason of a rejected entry is the final-failure text, the url, a colon and one of the
  two messages of \<open>mockFetch\<close>.
\<close>

definition ends_with :: "string \<Rightarrow> string \<Rightarrow> bool" where
  "ends_with s t = (length t \<le> length s \<and> drop (length s - length t) s = t)"

definition target_of :: "outcome \<Rightarrow> string" where
  "target_of entry =
     (case entry of
        Fulfilled v \<Rightarrow> drop (length ''Response data from '') v
      | Rejected reason \<Rightarrow>
          (let body = drop (length (cross_mark @ '' Final Failure for '')) reason;
               tail = (if ends_with body '': 404 Not Found'' then '': 404 Not Found''
                       else '': 503 Service Unavailable'')
           in take (length body - length tail) body))"

section \<open>Concrete inputs\<close>

text \<open>
  Draws that make every request of a target fail with status 503, fail with status 404,
  or succeed.
\<close>

definition server_down :: "nat \<Rightarrow> rat" where
  "server_down k = 0"

definition not_found :: "nat \<Rightarrow> rat" where
  "not_found k = 1 / 4"

definition healthy :: "nat \<Rightarrow> rat" where
  "healthy k = 1 / 2"

text \<open>
  The call at the end of the source file, \<open>fetchWithConcurrency(apiUrls, 2)\<close>, with draws
  under which the second target is not found, the third is down and the others succeed;
  one of its interleavings, and three of the states it passes through.
\<close>

definition apiUrls :: "string list" where
  "apiUrls = [''API-1 (User Profile)'', ''API-2 (Dashboard Stats)'', ''API-3 (Notifications)'',
     ''API-4 (Settings)'', ''API-5 (Friends List)'']"

definition mixed_draws :: "nat \<Rightarrow> nat \<Rightarrow> rat" where
  "mixed_draws p = (if p = 1 then not_found else if p = 2 then server_down else healthy)"

definition demo :: config where
  "demo = \<lparr>urls = apiUrls, limit = 2, draws = mixed_draws\<rparr>"

definition demo_events :: "event list" where
  "demo_events =
     [Advance, Advance, Settle (1, ''API-2 (Dashboard Stats)''),
      Advance, Settle (0, ''API-1 (User Profile)''),
      Advance, Settle (2, ''API-3 (Notifications)''),
      Advance, Settle (4, ''API-5 (Friends List)''),
      Advance, Settle (3, ''API-4 (Settings)'')]"

definition demo_waiting :: state where
  "demo_waiting =
     \<lparr>todo = [''API-3 (Notifications)'', ''API-4 (Settings)'', ''API-5 (Friends List)''],
      started = 2,
      pending = [(0, ''API-1 (User Profile)''), (1, ''API-2 (Dashboard Stats)'')],
      executing = [(0, ''API-1 (User Profile)''), (1, ''API-2 (Dashboard Stats)'')],
      results = [],
      phase = AwaitRace [(0, ''API-1 (User Profile)''), (1, ''API-2 (Dashboard Stats)'')]\<rparr>"

definition demo_third_started :: state where
  "demo_third_started =
     \<lparr>todo = [''API-4 (Settings)'', ''API-5 (Friends List)''],
      started = 3,
      pending = [(0, ''API-1 (User Profile)''), (2, ''API-3 (Notifications)'')],
      executing = [(0, ''API-1 (User Profile)''), (2, ''API-3 (Notifications)'')],
      results = [Rejected (finalFailure ''API-2 (Dashboard Stats)'' ''404 Not Found'')],
      phase = AwaitRace [(0, ''API-1 (User Profile)''), (2, ''API-3 (Notifications)'')]\<rparr>"

definition demo_results :: "outcome list" where
  "demo_results =
     [Rejected (finalFailure ''API-2 (Dashboard Stats)'' ''404 Not Found''),
      Fulfilled ''Response data from API-1 (User Profile)'',
      Rejected (finalFailure ''API-3 (Notifications)'' ''503 Service Unavailable''),
      Fulfilled ''Response data from API-5 (Friends List)'',
      Fulfilled ''Response data from API-4 (Settings)'']"

definition demo_returned :: state where
  "demo_returned =
     \<lparr>todo = [], started = 5, pending = [], executing = [], results = demo_results,
      phase = Returned\<rparr>"

text \<open>The scheduler under which the operation that was started first settles first.\<close>

definition oldest_first :: "state \<Rightarrow> nat" where
  "oldest_first st = 0"

text \<open>A call with \<open>limit = 0\<close>, and its state after the first stretch of the body.\<close>

definition unguarded :: config where
  "unguarded =
     \<lparr>urls = [''API-1 (User Profile)'', ''API-2 (Dashboard Stats)''], limit = 0,
      draws = mixed_draws\<rparr>"

definition unguarded_admitted :: state where
  "unguarded_admitted =
     \<lparr>todo = [''API-2 (Dashboard Stats)''], started = 1,
      pending = [(0, ''API-1 (User Profile)'')], executing = [(0, ''API-1 (User Profile)'')],
      results = [], phase = AwaitRace [(0, ''API-1 (User Profile)'')]\<rparr>"

text \<open>
  Two runs of a call that submits the same url twice: in the first run the first target
  is not found, in the second run the second one; both runs return the same state.
\<close>

definition first_fails :: "nat \<Rightarrow> nat \<Rightarrow> rat" where
  "first_fails p = (if p = 0 then not_found else healthy)"

definition twice_first :: config where
  "twice_first =
     \<lparr>urls = [''API-1 (User Profile)'', ''API-1 (User Profile)''], limit = 2,
      draws = first_fails\<rparr>"

definition twice_second :: config where
  "twice_second =
     \<lparr>urls = [''API-1 (User Profile)'', ''API-1 (User Profile)''], limit = 2,
      draws = mixed_draws\<rparr>"

definition twice_returned :: state where
  "twice_returned =
     \<lparr>todo = [], started = 2, pending = [], executing = [],
      results = [Rejected (finalFailure ''API-1 (User Profile)'' ''404 Not Found''),
                 Fulfilled ''Response data from API-1 (User Profile)''],
      phase = Returned\<rparr>"

section \<open>Auxiliary lemmas\<close>

subsection \<open>The retry executor\<close>

declare fetchWithRetry.simps [simp del]

lemma isServerError_503: "isServerError ''503 Service Unavailable''"
  by (simp add: isServerError_def)

lemma not_isServerError_404: "\<not> isServerError ''404 Not Found''"
  by (simp add: isServerError_def)

lemma always_transient_Suc: "always_transient fetch url k \<Longrightarrow> always_transient fetch url (Suc k)"
  by (simp add: always_transient_def)

lemma always_transient_here:
  "always_transient fetch url k \<Longrightarrow> \<exists>message. fetch url k = Throws message \<and> isServerError message"
  by (simp add: always_transient_def)

lemma request_server_down: "request server_down url k = Throws ''503 Service Unavailable''"
  by (simp add: request_def server_down_def mockFetch_def js_0_2_def)

lemma request_not_found: "request not_found url k = Throws ''404 Not Found''"
  by (simp add: request_def not_found_def mockFetch_def js_0_2_def js_0_3_def)

lemma request_healthy: "request healthy url k = Resolves (''Response data from '' @ url)"
  by (simp add: request_def healthy_def mockFetch_def js_0_2_def js_0_3_def)

lemma always_transient_server_down: "always_transient (request server_down) url k"
  by (simp add: always_transient_def request_server_down isServerError_503)

lemma doubling_upt:
  "(delay::rat) # map (\<lambda>i. delay * 2 * 2 ^ i) [0..<n] = map (\<lambda>i. delay * 2 ^ i) [0..<Suc n]"
  by (simp add: upt_conv_Cons map_Suc_upt [symmetric] del: upt_Suc)

text \<open>
  A target that fails with a retryable error on every invocation: the whole log of
  \<open>fetchWithRetry\<close> with a budget of \<open>n\<close> retries.
\<close>

lemma exhausted_log:
  "always_transient fetch url k \<Longrightarrow> retries = int n \<Longrightarrow>
   \<exists>message. fetch url (k + n) = Throws message \<and>
     fetchWithRetry fetch k url retries delay =
       \<lparr>settles = Throws (finalFailure url message), calls = Suc n,
        waits = map (\<lambda>i. delay * 2 ^ i) [0..<n]\<rparr>"
proof (induction n arbitrary: k retries delay)
  case 0
  from always_transient_here [OF 0(1)]
  obtain m where m: "fetch url k = Throws m" "isServerError m"
    by blast
  then show ?case using 0 by (simp add: fetchWithRetry.simps [of fetch k])
next
  case (Suc n)
  from always_transient_here [OF Suc(2)]
  obtain m where m: "fetch url k = Throws m" "isServerError m"
    by blast
  have r: "retries - 1 = int n" using Suc(3) by simp
  from Suc.IH [OF always_transient_Suc [OF Suc(2)] r, of "delay * 2"]
  obtain m' where m': "fetch url (Suc k + n) = Throws m'"
    "fetchWithRetry fetch (Suc k) url (retries - 1) (delay * 2) =
       \<lparr>settles = Throws (finalFailure url m'), calls = Suc n,
        waits = map (\<lambda>i. delay * 2 * 2 ^ i) [0..<n]\<rparr>"
    by blast
  show ?case
    using m m' Suc(3) doubling_upt [of delay n]
    by (simp add: fetchWithRetry.simps [of fetch k] del: upt_Suc)
qed

text \<open>Whatever the request does, the recorded waits are \<open>delay\<close>, \<open>2 * delay\<close>, \<open>4 * delay\<close>, ...\<close>

lemma waits_backoff:
  "waits (fetchWithRetry fetch k url retries delay) =
     map (\<lambda>i. delay * 2 ^ i) [0..<length (waits (fetchWithRetry fetch k url retries delay))]"
proof (induction fetch k url retries delay rule: fetchWithRetry.induct)
  case (1 fetch k url retries delay)
  show ?case
  proof (cases "fetch url k")
    case (Resolves data)
    then show ?thesis by (simp add: fetchWithRetry.simps [of fetch k])
  next
    case (Throws message)
    show ?thesis
    proof (cases "retries > 0 \<and> isServerError message")
      case True
      let ?r = "fetchWithRetry fetch (Suc k) url (retries - 1) (delay * 2)"
      have ih: "waits ?r = map (\<lambda>i. delay * 2 * 2 ^ i) [0..<length (waits ?r)]"
        using 1 [OF Throws True] .
      have unf: "fetchWithRetry fetch k url retries delay =
          ?r\<lparr>calls := Suc (calls ?r), waits := delay # waits ?r\<rparr>"
        using Throws True by (simp add: fetchWithRetry.simps [of fetch k] Let_def)
      have "delay # waits ?r = map (\<lambda>i. delay * 2 ^ i) [0..<Suc (length (waits ?r))]"
        by (subst ih) (simp add: doubling_upt del: upt_Suc)
      then show ?thesis by (simp add: unf del: upt_Suc)
    next
      case False
      then have "fetchWithRetry fetch k url retries delay =
          \<lparr>settles = Throws (finalFailure url message), calls = 1, waits = []\<rparr>"
        using Throws by (auto simp add: fetchWithRetry.simps [of fetch k])
      then show ?thesis by simp
    qed
  qed
qed

lemma finalFailure_longer: "length message < length (finalFailure url message)"
  by (simp add: finalFailure_def cross_mark_def)

lemma finalFailure_inject: "finalFailure url m = finalFailure url m' \<longleftrightarrow> m = m'"
  by (simp add: finalFailure_def)

text \<open>
  A rejection whose wrapped message is retryable only comes from a call that has used up
  its budget: while retries are left, such a message leads to another attempt.
\<close>

lemma rejection_exhausted:
  "settles (fetchWithRetry g k url retries delay) = Throws (finalFailure url m) \<Longrightarrow>
   isServerError m \<Longrightarrow> 0 \<le> retries \<Longrightarrow>
   calls (fetchWithRetry g k url retries delay) = nat retries + 1"
proof (induction g k url retries delay rule: fetchWithRetry.induct)
  case (1 fetch k url retries delay)
  show ?case
  proof (cases "fetch url k")
    case (Resolves data)
    then have "settles (fetchWithRetry fetch k url retries delay) = Resolves data"
      by (simp add: fetchWithRetry.simps [of fetch k])
    with "1.prems"(1) show ?thesis by simp
  next
    case (Throws message)
    show ?thesis
    proof (cases "retries > 0 \<and> isServerError message")
      case True
      let ?r = "fetchWithRetry fetch (Suc k) url (retries - 1) (delay * 2)"
      have unf: "fetchWithRetry fetch k url retries delay =
          ?r\<lparr>calls := Suc (calls ?r), waits := delay # waits ?r\<rparr>"
        using Throws True by (simp add: fetchWithRetry.simps [of fetch k] Let_def)
      with "1.prems"(1) have s: "settles ?r = Throws (finalFailure url m)" by simp
      have "0 \<le> retries - 1" using True by simp
      from "1.IH" [OF Throws True s "1.prems"(2) this]
      have "calls ?r = nat (retries - 1) + 1" .
      with True show ?thesis by (simp add: unf nat_diff_distrib)
    next
      case False
      then have unf: "fetchWithRetry fetch k url retries delay =
          \<lparr>settles = Throws (finalFailure url message), calls = 1, waits = []\<rparr>"
        using Throws by (auto simp add: fetchWithRetry.simps [of fetch k])
      with "1.prems"(1) have "message = m" by (simp add: finalFailure_inject)
      with False "1.prems"(2,3) have "nat retries = 0" by auto
      then show ?thesis unfolding unf by simp
    qed
  qed
qed

subsection \<open>The arrays and the promise chain\<close>

text \<open>
  A promise that is in \<open>executing\<close> is removed by its \<open>.finally\<close> callback, and nothing
  else is; the chain always fulfils, because \<open>.catch\<close> handles the rejection.
\<close>

lemma indexOf_absent: "x \<notin> set xs \<Longrightarrow> indexOf xs x = - 1"
  by (induction xs) (auto simp: Let_def)

lemma indexOf_present: "x \<in> set xs \<Longrightarrow> 0 \<le> indexOf xs x \<and> indexOf xs x < int (length xs)"
  by (induction xs) (auto simp: Let_def)

lemma splice_Cons_shift:
  "0 \<le> i \<Longrightarrow> splice_js (y # ys) (i + 1) 1 = y # splice_js ys i 1"
  by (simp add: splice_js_def Let_def nat_add_distrib min_def max_def)

lemma splice_indexOf: "p \<in> set xs \<Longrightarrow> splice_js xs (indexOf xs p) 1 = remove1 p xs"
proof (induction xs)
  case Nil
  then show ?case by simp
next
  case (Cons y ys)
  show ?case
  proof (cases "y = p")
    case True
    then show ?thesis by (simp add: splice_js_def)
  next
    case False
    with Cons.prems have mem: "p \<in> set ys" by simp
    from indexOf_present [OF mem] have nn: "0 \<le> indexOf ys p" by simp
    have "indexOf (y # ys) p = indexOf ys p + 1"
      using False nn by (simp add: Let_def)
    then show ?thesis
      using False Cons.IH [OF mem] splice_Cons_shift [OF nn, of y ys] by simp
  qed
qed

lemma promise_chain_eq:
  "promise_chain cfg p st =
     (Resolves (), st\<lparr>results := results st @ [outcome_of cfg p],
                      executing := splice_js (executing st) (indexOf (executing st) p) 1\<rparr>)"
  by (cases "settles (operation cfg p)")
     (simp_all add: promise_chain_def then_js_def catch_js_def finally_js_def
        on_fulfilled_def on_rejected_def on_finally_def outcome_of_def)

lemma settle_eq:
  "settle cfg p st =
     (case phase st of
        AwaitRace snap \<Rightarrow>
          if p \<in> set snap then (settled_state cfg p st)\<lparr>phase := Running\<rparr>
          else settled_state cfg p st
      | AwaitAll snap \<Rightarrow>
          if p \<in> set snap \<and> list_all (\<lambda>q. q \<notin> set (remove1 p (pending st))) snap
          then (settled_state cfg p st)\<lparr>phase := Returned\<rparr>
          else settled_state cfg p st
      | _ \<Rightarrow> settled_state cfg p st)"
  by (simp add: settle_def promise_chain_eq settled_state_def split: phase.splits)

subsection \<open>Every event uses up work\<close>

lemma work_left_settled:
  "p \<in> set (pending st) \<Longrightarrow>
   2 * length (pending (settled_state cfg p st)) + 2 = 2 * length (pending st) \<and>
   todo (settled_state cfg p st) = todo st \<and> phase (settled_state cfg p st) = phase st"
  by (simp add: settled_state_def length_remove1) (cases "pending st", auto)

lemma step_decreases: "step cfg ev st = Some st' \<Longrightarrow> work_left st' < work_left st"
proof (cases ev)
  case Advance
  assume "step cfg ev st = Some st'"
  with Advance have r: "phase st = Running" and s: "st' = advance cfg st"
    by (auto split: if_splits)
  show ?thesis
    unfolding s using r
    by (cases "todo st") (auto simp: advance_def work_left_def Let_def)
next
  case (Settle p)
  assume "step cfg ev st = Some st'"
  with Settle have m: "p \<in> set (pending st)" and r: "phase st \<noteq> Running"
    and s: "st' = settle cfg p st"
    by (auto split: if_splits)
  from work_left_settled [OF m, of cfg] show ?thesis
    unfolding s settle_eq using r
    by (auto simp: work_left_def split: phase.splits)
qed

lemma exec_bounded: "exec cfg evs st = Some st' \<Longrightarrow> length evs + work_left st' \<le> work_left st"
proof (induction evs arbitrary: st)
  case Nil
  then show ?case by simp
next
  case (Cons ev evs)
  then obtain st1 where s: "step cfg ev st = Some st1" and e: "exec cfg evs st1 = Some st'"
    by (cases "step cfg ev st") auto
  from Cons.IH [OF e] step_decreases [OF s] show ?case by simp
qed

lemma run_length: "exec cfg evs (start cfg) = Some st \<Longrightarrow> length evs \<le> 3 * length (urls cfg) + 1"
  using exec_bounded [of cfg evs "start cfg" st] by (simp add: work_left_def start_def)

subsection \<open>The invariant holds in every reachable state\<close>

lemma invariant_start: "invariant cfg (start cfg)"
  by (simp add: invariant_def arrays_ok_def accounted_def admitted_ok_def phase_ok_def
      start_def launched_def cap_def)

lemma drop_Cons_launch:
  assumes "drop s us = url # rest"
  shows "s < length us \<and> drop (Suc s) us = rest \<and>
    take (Suc s) (enumerate 0 us) = take s (enumerate 0 us) @ [(s, url)]"
proof -
  have l: "s < length us"
    using assms by (cases "s < length us") auto
  from Cons_nth_drop_Suc [OF l] assms have n: "us ! s = url" and d: "drop (Suc s) us = rest"
    by auto
  have "take (Suc s) (enumerate 0 us) = take s (enumerate 0 us) @ [enumerate 0 us ! s]"
    using l by (simp add: take_Suc_conv_app_nth)
  then show ?thesis using l n d by (simp add: nth_enumerate_eq)
qed

lemma launched_ids: "q \<in> set (take s (enumerate 0 us)) \<Longrightarrow> fst q < s"
  by (auto simp: in_set_conv_nth nth_enumerate_eq)

lemma subseq_remove1: "subseq (remove1 x xs) xs"
  by (induction xs) auto

lemma pending_launched:
  "arrays_ok cfg st \<Longrightarrow> q \<in> set (pending st) \<Longrightarrow> fst q < started st"
proof -
  assume a: "arrays_ok cfg st" and q: "q \<in> set (pending st)"
  from a have "subseq (pending st) (launched cfg st)" by (simp add: arrays_ok_def)
  from list_emb_set [OF this q] have "q \<in> set (take (started st) (enumerate 0 (urls cfg)))"
    by (auto simp: launched_def promises_def)
  then show ?thesis by (rule launched_ids)
qed

lemma advance_Nil:
  "todo st = [] \<Longrightarrow>
   advance cfg st =
     st\<lparr>phase := (if list_all (\<lambda>q. q \<notin> set (pending st)) (executing st) then Returned
                    else AwaitAll (executing st))\<rparr>"
  by (simp add: advance_def Let_def)

lemma advance_Cons:
  "todo st = url # rest \<Longrightarrow>
   advance cfg st =
     (if limit cfg \<le> int (length (executing (pushed st url rest)))
      then (pushed st url rest)
        \<lparr>phase := (if list_ex (\<lambda>q. q \<notin> set (pending (pushed st url rest)))
                         (executing (pushed st url rest))
                    then Running else AwaitRace (executing (pushed st url rest)))\<rparr>
      else pushed st url rest)"
  by (simp add: advance_def Let_def pushed_def)

lemma arrays_ok_pushed:
  assumes "arrays_ok cfg st" and "todo st = url # rest"
  shows "arrays_ok cfg (pushed st url rest)"
proof -
  from assms have d: "drop (started st) (urls cfg) = url # rest"
    by (simp add: arrays_ok_def)
  from drop_Cons_launch [OF d]
  have l: "started st < length (urls cfg)" and r: "drop (Suc (started st)) (urls cfg) = rest"
    and t: "take (Suc (started st)) (promises cfg) =
      take (started st) (promises cfg) @ [(started st, url)]"
    by (simp_all add: promises_def)
  have s: "subseq (pending st @ [(started st, url)]) (launched cfg st @ [(started st, url)])"
    using assms(1) by (simp add: arrays_ok_def)
  have e: "executing st = pending st" using assms(1) by (simp add: arrays_ok_def)
  show ?thesis
    unfolding arrays_ok_def pushed_def launched_def
    using l r t s e by (simp add: launched_def)
qed

lemma arrays_ok_phase [simp]: "arrays_ok cfg (st\<lparr>phase := ph\<rparr>) = arrays_ok cfg st"
  by (simp add: arrays_ok_def launched_def)

lemma accounted_phase [simp]: "accounted cfg (st\<lparr>phase := ph\<rparr>) = accounted cfg st"
  by (simp add: accounted_def launched_def)

lemma admitted_ok_phase [simp]: "admitted_ok cfg (st\<lparr>phase := ph\<rparr>) = admitted_ok cfg st"
  by (simp add: admitted_ok_def)

lemma arrays_ok_advance:
  assumes "arrays_ok cfg st"
  shows "arrays_ok cfg (advance cfg st)"
proof (cases "todo st")
  case Nil
  then show ?thesis using assms by (simp add: advance_Nil)
next
  case (Cons url rest)
  from arrays_ok_pushed [OF assms Cons] show ?thesis
    by (simp add: advance_Cons [OF Cons])
qed

lemma accounted_pushed:
  assumes "arrays_ok cfg st" and "accounted cfg st" and "todo st = url # rest"
  shows "accounted cfg (pushed st url rest)"
proof -
  from assms have d: "drop (started st) (urls cfg) = url # rest"
    by (simp add: arrays_ok_def)
  from drop_Cons_launch [OF d]
  have t: "take (Suc (started st)) (promises cfg) =
      take (started st) (promises cfg) @ [(started st, url)]"
    by (simp_all add: promises_def)
  show ?thesis
    using assms(2) t by (simp add: accounted_def launched_def pushed_def)
qed

lemma accounted_advance:
  assumes "arrays_ok cfg st" and "accounted cfg st"
  shows "accounted cfg (advance cfg st)"
proof (cases "todo st")
  case Nil
  then show ?thesis using assms by (simp add: advance_Nil)
next
  case (Cons url rest)
  from accounted_pushed [OF assms Cons] show ?thesis
    by (simp add: advance_Cons [OF Cons])
qed

lemma filter_all_launched:
  "arrays_ok cfg st \<Longrightarrow> filter (\<lambda>q. fst q < started st) (pending st) = pending st"
  by (rule filter_True) (simp add: pending_launched)

lemma admitted_ok_pushed:
  assumes "arrays_ok cfg st" and "admitted_ok cfg st"
    and run: "int (length (pending st)) < cap cfg"
  shows "admitted_ok cfg (pushed st url rest)"
proof -
  have "int (length (filter (\<lambda>q. fst q < j) (pending st @ [(started st, url)]))) < cap cfg"
    if "j < Suc (started st)" for j
  proof (cases "j < started st")
    case True
    then show ?thesis using assms(2) by (simp add: admitted_ok_def)
  next
    case False
    with that have "j = started st" by simp
    then show ?thesis using run filter_all_launched [OF assms(1)] by simp
  qed
  then show ?thesis
    by (simp add: admitted_ok_def pushed_def)
qed

lemma admitted_ok_advance:
  assumes "arrays_ok cfg st" and "admitted_ok cfg st" and "phase_ok cfg st"
    and "phase st = Running"
  shows "admitted_ok cfg (advance cfg st)"
proof (cases "todo st")
  case Nil
  then show ?thesis using assms(2) by (simp add: advance_Nil)
next
  case (Cons url rest)
  have run: "int (length (pending st)) < cap cfg"
    using assms(3,4) by (simp add: phase_ok_def)
  from admitted_ok_pushed [OF assms(1,2) run] show ?thesis
    by (simp add: advance_Cons [OF Cons])
qed

lemma phase_ok_advance:
  assumes "arrays_ok cfg st" and "phase_ok cfg st" and "phase st = Running"
  shows "phase_ok cfg (advance cfg st)"
proof (cases "todo st")
  case Nil
  have e: "executing st = pending st" using assms(1) by (simp add: arrays_ok_def)
  have "list_all (\<lambda>q. q \<notin> set (pending st)) (pending st) \<longleftrightarrow> pending st = []"
    by (cases "pending st") (auto simp: list_all_iff)
  then show ?thesis using assms(2,3) Nil e
    by (simp add: advance_Nil phase_ok_def)
next
  case (Cons url rest)
  have e: "executing st = pending st" using assms(1) by (simp add: arrays_ok_def)
  have run: "int (length (pending st)) < cap cfg"
    using assms(2,3) by (simp add: phase_ok_def)
  have nx: "\<not> list_ex (\<lambda>q. q \<notin> set (pending (pushed st url rest)))
      (executing (pushed st url rest))"
    using e by (simp add: list_ex_iff pushed_def)
  have c: "limit cfg \<le> cap cfg" by (simp add: cap_def)
  have ph: "phase (pushed st url rest) = Running" "pending (pushed st url rest) \<noteq> []"
    "length (pending (pushed st url rest)) = Suc (length (pending st))"
    "executing (pushed st url rest) = pending (pushed st url rest)"
    using assms(3) e by (simp_all add: pushed_def)
  show ?thesis
    unfolding advance_Cons [OF Cons] using nx c ph run
    by (simp add: phase_ok_def)
qed

lemma invariant_advance:
  "invariant cfg st \<Longrightarrow> phase st = Running \<Longrightarrow> invariant cfg (advance cfg st)"
  by (simp add: invariant_def arrays_ok_advance accounted_advance admitted_ok_advance
      phase_ok_advance)

lemma arrays_ok_settled:
  assumes "arrays_ok cfg st" and "p \<in> set (pending st)"
  shows "arrays_ok cfg (settled_state cfg p st)"
proof -
  have e: "executing st = pending st" using assms(1) by (simp add: arrays_ok_def)
  have "subseq (remove1 p (pending st)) (pending st)" by (rule subseq_remove1)
  moreover have "subseq (pending st) (launched cfg st)"
    using assms(1) by (simp add: arrays_ok_def)
  ultimately have "subseq (remove1 p (pending st)) (launched cfg st)"
    by (rule subseq_order.trans)
  then show ?thesis
    using assms e
    by (simp add: arrays_ok_def settled_state_def splice_indexOf launched_def)
qed

lemma accounted_settled:
  assumes "accounted cfg st" and "p \<in> set (pending st)"
  shows "accounted cfg (settled_state cfg p st)"
proof -
  have m: "add_mset p (mset (remove1 p (pending st))) = mset (pending st)"
    using assms(2) by simp
  have "image_mset (outcome_of cfg) (mset (pending st)) =
      add_mset (outcome_of cfg p) (image_mset (outcome_of cfg) (mset (remove1 p (pending st))))"
    by (subst m [symmetric]) simp
  then show ?thesis
    using assms(1) by (simp add: accounted_def settled_state_def launched_def)
qed

lemma length_filter_remove1:
  "length (filter P (remove1 p xs)) \<le> length (filter P xs)"
  by (induction xs) auto

lemma admitted_ok_settled:
  assumes "admitted_ok cfg st"
  shows "admitted_ok cfg (settled_state cfg p st)"
proof -
  have "int (length (filter (\<lambda>q. fst q < j) (remove1 p (pending st)))) < cap cfg"
    if "j < started st" for j
  proof -
    have "int (length (filter (\<lambda>q. fst q < j) (pending st))) < cap cfg"
      using assms that by (simp add: admitted_ok_def)
    with length_filter_remove1 [of "\<lambda>q. fst q < j" p "pending st"] show ?thesis
      by linarith
  qed
  then show ?thesis by (simp add: admitted_ok_def settled_state_def)
qed

lemma settled_fields:
  "todo (settled_state cfg p st) = todo st"
  "started (settled_state cfg p st) = started st"
  "pending (settled_state cfg p st) = remove1 p (pending st)"
  "phase (settled_state cfg p st) = phase st"
  "results (settled_state cfg p st) = results st @ [outcome_of cfg p]"
  by (simp_all add: settled_state_def)

lemma length_remove1_int:
  "p \<in> set xs \<Longrightarrow> int (length (remove1 p xs)) = int (length xs) - 1"
  by (induction xs) auto

lemma phase_ok_settle:
  assumes "phase_ok cfg st" and "p \<in> set (pending st)"
  shows "phase_ok cfg (settle cfg p st)"
proof (cases "phase st")
  case Running
  then show ?thesis using assms
    by (simp add: settle_eq phase_ok_def settled_fields length_remove1_int)
next
  case (AwaitRace snap)
  then show ?thesis using assms
    by (simp add: settle_eq phase_ok_def settled_fields length_remove1_int)
next
  case (AwaitAll snap)
  have pos: "int (length (remove1 p (pending st))) = int (length (pending st)) - 1"
    using assms(2) by (rule length_remove1_int)
  have sub: "set (pending st) \<subseteq> set snap" using assms(1) AwaitAll by (simp add: phase_ok_def)
  have sub': "set (remove1 p (pending st)) \<subseteq> set snap"
    using sub set_remove1_subset [of p "pending st"] by blast
  have emp: "remove1 p (pending st) = []"
    if "list_all (\<lambda>q. q \<notin> set (remove1 p (pending st))) snap"
  proof (cases "remove1 p (pending st)")
    case Nil
    then show ?thesis .
  next
    case (Cons q qs)
    then have "q \<in> set (remove1 p (pending st))" by simp
    with sub' that show ?thesis by (auto simp: list_all_iff)
  qed
  have ne: "remove1 p (pending st) \<noteq> []"
    if "\<not> list_all (\<lambda>q. q \<notin> set (remove1 p (pending st))) snap"
    using that by (auto simp: list_all_iff)
  show ?thesis
    using assms AwaitAll pos sub sub' emp ne
    by (auto simp add: settle_eq phase_ok_def settled_fields)
next
  case Returned
  then show ?thesis using assms by (simp add: phase_ok_def)
next
  case (Failed e)
  then show ?thesis using assms by (simp add: phase_ok_def)
qed

lemma settle_keeps:
  "arrays_ok cfg (settle cfg p st) = arrays_ok cfg (settled_state cfg p st)"
  "accounted cfg (settle cfg p st) = accounted cfg (settled_state cfg p st)"
  "admitted_ok cfg (settle cfg p st) = admitted_ok cfg (settled_state cfg p st)"
  by (simp_all add: settle_eq split: phase.splits)

lemma invariant_settle:
  "invariant cfg st \<Longrightarrow> p \<in> set (pending st) \<Longrightarrow> invariant cfg (settle cfg p st)"
  by (simp add: invariant_def settle_keeps arrays_ok_settled accounted_settled
      admitted_ok_settled phase_ok_settle)

lemma invariant_step:
  "invariant cfg st \<Longrightarrow> step cfg ev st = Some st' \<Longrightarrow> invariant cfg st'"
  by (cases ev) (auto simp: invariant_advance invariant_settle split: if_splits)

lemma invariant_exec_from:
  "invariant cfg st \<Longrightarrow> exec cfg evs st = Some st' \<Longrightarrow> invariant cfg st'"
proof (induction evs arbitrary: st)
  case Nil
  then show ?case by simp
next
  case (Cons ev evs)
  then show ?case
    by (cases "step cfg ev st") (auto dest: invariant_step)
qed

lemma invariant_exec: "exec cfg evs (start cfg) = Some st \<Longrightarrow> invariant cfg st"
  by (rule invariant_exec_from [OF invariant_start])

subsection \<open>The scheduler loop ends in the returned state\<close>

declare drive.simps [simp del]

lemma exec_append:
  "exec cfg (xs @ ys) st = (case exec cfg xs st of None \<Rightarrow> None | Some st' \<Rightarrow> exec cfg ys st')"
  by (induction xs arbitrary: st) (auto split: option.splits)

lemma next_event_enabled:
  "next_event pick st = Some ev \<Longrightarrow> \<exists>st'. step cfg ev st = Some st'"
  by (cases "phase st") (auto simp: next_event_def split: if_splits)

lemma drive_reaches: "\<exists>evs. exec cfg evs st = Some (drive cfg pick st)"
proof (induction cfg pick st rule: drive.induct)
  case (1 cfg pick st)
  show ?case
  proof (cases "next_event pick st")
    case None
    then have "drive cfg pick st = st" by (simp add: drive.simps [of cfg pick st])
    then have "exec cfg [] st = Some (drive cfg pick st)" by simp
    then show ?thesis by blast
  next
    case (Some ev)
    from next_event_enabled [OF Some] obtain st' where s: "step cfg ev st = Some st'"
      by blast
    from 1 [OF Some s] obtain evs where e: "exec cfg evs st' = Some (drive cfg pick st')"
      by blast
    have "drive cfg pick st = drive cfg pick st'"
      using Some s by (simp add: drive.simps [of cfg pick st])
    with e s have "exec cfg (ev # evs) st = Some (drive cfg pick st)" by simp
    then show ?thesis by blast
  qed
qed

lemma drive_final: "next_event pick (drive cfg pick st) = None"
proof (induction cfg pick st rule: drive.induct)
  case (1 cfg pick st)
  show ?case
  proof (cases "next_event pick st")
    case None
    then show ?thesis by (simp add: drive.simps [of cfg pick st])
  next
    case (Some ev)
    from next_event_enabled [OF Some] obtain st' where s: "step cfg ev st = Some st'"
      by blast
    have "drive cfg pick st = drive cfg pick st'"
      using Some s by (simp add: drive.simps [of cfg pick st])
    with 1 [OF Some s] show ?thesis by simp
  qed
qed

lemma final_returned:
  "invariant cfg st \<Longrightarrow> next_event pick st = None \<Longrightarrow> phase st = Returned"
  by (cases "phase st") (auto simp: next_event_def invariant_def phase_ok_def split: if_splits)

lemma drive_invariant: "invariant cfg (drive cfg pick (start cfg))"
proof -
  from drive_reaches [of cfg "start cfg" pick]
  obtain evs where "exec cfg evs (start cfg) = Some (drive cfg pick (start cfg))" by blast
  then show ?thesis by (rule invariant_exec)
qed

lemma drive_returned: "phase (drive cfg pick (start cfg)) = Returned"
  by (rule final_returned [OF drive_invariant drive_final])

lemma fetchWithConcurrency_resolves:
  "fetchWithConcurrency cfg pick = Resolved (results (drive cfg pick (start cfg)))"
  by (simp add: fetchWithConcurrency_def drive_returned)

lemma returned_all_launched:
  assumes "invariant cfg st" and "phase st = Returned"
  shows "pending st = []" and "started st = length (urls cfg)" and "launched cfg st = promises cfg"
proof -
  from assms show p: "pending st = []" by (simp add: invariant_def phase_ok_def)
  from assms have "todo st = drop (started st) (urls cfg)" and "todo st = []"
    and "started st \<le> length (urls cfg)"
    by (auto simp add: invariant_def phase_ok_def arrays_ok_def)
  then show s: "started st = length (urls cfg)" by simp
  then show "launched cfg st = promises cfg" by (simp add: launched_def promises_def)
qed

lemma returned_results:
  assumes "invariant cfg st" and "phase st = Returned"
  shows "mset (results st) = image_mset (outcome_of cfg) (mset (promises cfg))"
  using assms returned_all_launched [OF assms]
  by (simp add: invariant_def accounted_def)

lemma length_promises: "length (promises cfg) = length (urls cfg)"
  by (simp add: promises_def)

lemma returned_length:
  assumes "invariant cfg st" and "phase st = Returned"
  shows "length (results st) = length (urls cfg)"
proof -
  have "size (mset (results st)) = size (image_mset (outcome_of cfg) (mset (promises cfg)))"
    using returned_results [OF assms] by simp
  then show ?thesis by (simp add: length_promises)
qed

lemma results_set:
  assumes "mset rs = image_mset (outcome_of cfg) (mset (promises cfg))"
  shows "set rs = outcome_of cfg ` set (promises cfg)"
proof -
  have "set_mset (mset rs) = set_mset (image_mset (outcome_of cfg) (mset (promises cfg)))"
    using assms by simp
  then show ?thesis by simp
qed

subsection \<open>Consequences of the invariant\<close>

lemma never_failed: "invariant cfg st \<Longrightarrow> phase st \<noteq> Failed e"
  by (auto simp: invariant_def phase_ok_def)

lemma active_le_cap: "invariant cfg st \<Longrightarrow> int (length (pending st)) \<le> cap cfg"
  by (cases "phase st") (auto simp: invariant_def phase_ok_def cap_def)

lemma advance_pending_grows: "length (pending st) \<le> length (pending (advance cfg st))"
  by (cases "todo st") (simp_all add: advance_Nil advance_Cons pushed_def)

lemma only_settle_shrinks:
  "step cfg ev st = Some st' \<Longrightarrow> length (pending st') < length (pending st) \<Longrightarrow>
   \<exists>p. ev = Settle p \<and> p \<in> set (pending st)"
proof (cases ev)
  case Advance
  assume "step cfg ev st = Some st'" and l: "length (pending st') < length (pending st)"
  with Advance have "st' = advance cfg st" by (auto split: if_splits)
  with l advance_pending_grows [of st cfg] show ?thesis by simp
next
  case (Settle p)
  assume "step cfg ev st = Some st'"
  with Settle show ?thesis by (auto split: if_splits)
qed

lemma settle_step_fields:
  assumes "step cfg (Settle p) st = Some st'"
  shows "pending st' = remove1 p (pending st) \<and> todo st' = todo st \<and>
    started st' = started st \<and> results st' = results st @ [outcome_of cfg p]"
proof -
  from assms have "st' = settle cfg p st" by (auto split: if_splits)
  then show ?thesis
    by (auto simp: settle_eq settled_fields split: phase.splits)
qed

lemma two_in_filter:
  assumes "x \<in> set xs" and "y \<in> set xs" and "x \<noteq> y" and "P x" and "P y"
  shows "2 \<le> length (filter P xs)"
proof -
  have "{x, y} \<subseteq> set (filter P xs)" using assms by simp
  then have "card {x, y} \<le> card (set (filter P xs))"
    by (rule card_mono [rotated]) simp
  also have "\<dots> \<le> length (filter P xs)" by (rule card_length)
  finally show ?thesis using assms(3) by simp
qed

lemma started_accounted:
  assumes "invariant cfg st"
  shows "length (results st) + length (pending st) = started st"
proof -
  from assms have "mset (results st) + image_mset (outcome_of cfg) (mset (pending st)) =
      image_mset (outcome_of cfg) (mset (launched cfg st))"
    by (simp add: invariant_def accounted_def)
  then have "size (mset (results st) + image_mset (outcome_of cfg) (mset (pending st))) =
      size (image_mset (outcome_of cfg) (mset (launched cfg st)))"
    by simp
  moreover have "started st \<le> length (urls cfg)"
    using assms by (simp add: invariant_def arrays_ok_def)
  ultimately show ?thesis
    by (simp add: launched_def length_promises)
qed

lemma progress:
  assumes "invariant cfg st" and "phase st \<noteq> Returned"
  shows "\<exists>ev st'. step cfg ev st = Some st'"
proof (cases "phase st")
  case Running
  then have "step cfg Advance st = Some (advance cfg st)" by simp
  then show ?thesis by blast
next
  case (AwaitRace snap)
  with assms(1) obtain p where "p \<in> set (pending st)"
    by (cases "pending st") (auto simp: invariant_def phase_ok_def)
  with AwaitRace have "step cfg (Settle p) st = Some (settle cfg p st)" by simp
  then show ?thesis by blast
next
  case (AwaitAll snap)
  with assms(1) obtain p where "p \<in> set (pending st)"
    by (cases "pending st") (auto simp: invariant_def phase_ok_def)
  with AwaitAll have "step cfg (Settle p) st = Some (settle cfg p st)" by simp
  then show ?thesis by blast
next
  case Returned
  with assms(2) show ?thesis by simp
next
  case (Failed e)
  with assms(1) show ?thesis by (simp add: invariant_def phase_ok_def)
qed

lemma only_latest_pending:
  assumes "invariant cfg st" and "limit cfg \<le> 0" and "q \<in> set (pending st)"
  shows "Suc (fst q) = started st"
proof -
  have c: "cap cfg = 1" using assms(2) by (simp add: cap_def)
  have up: "fst q < started st"
    using assms(1,3) by (auto simp: invariant_def intro: pending_launched)
  have "\<not> fst q < started st - 1"
  proof
    assume low: "fst q < started st - 1"
    have "started st - 1 < started st" using up by simp
    with assms(1) c have "length (filter (\<lambda>r. fst r < started st - 1) (pending st)) < 1"
      by (simp add: invariant_def admitted_ok_def)
    then have "filter (\<lambda>r. fst r < started st - 1) (pending st) = []" by simp
    with assms(3) low show False by (simp add: filter_empty_conv)
  qed
  with up show ?thesis by simp
qed

subsection \<open>Starting the first targets\<close>

lemma pushed_after_running:
  assumes inv: "invariant cfg st" and run: "phase st = Running"
    and more: "started st < length (urls cfg)"
  shows "\<exists>url rest. todo st = url # rest \<and>
    step cfg Advance st =
      Some (if limit cfg \<le> int (length (pending st)) + 1
            then (pushed st url rest)\<lparr>phase := AwaitRace (pending st @ [(started st, url)])\<rparr>
            else pushed st url rest)"
proof -
  from inv have t: "todo st = drop (started st) (urls cfg)" and e: "executing st = pending st"
    by (auto simp: invariant_def arrays_ok_def)
  from t more have "todo st \<noteq> []" by simp
  then obtain url rest where c: "todo st = url # rest"
    by (cases "todo st") auto
  have nx: "\<not> list_ex (\<lambda>q. q \<notin> set (pending (pushed st url rest)))
      (executing (pushed st url rest))"
    using e by (simp add: list_ex_iff pushed_def)
  have "advance cfg st =
      (if limit cfg \<le> int (length (pending st)) + 1
       then (pushed st url rest)\<lparr>phase := AwaitRace (pending st @ [(started st, url)])\<rparr>
       else pushed st url rest)"
    unfolding advance_Cons [OF c] using nx e by (simp add: pushed_def)
  with c run show ?thesis by simp
qed

lemma replicate_snoc: "replicate (Suc k) x = replicate k x @ [x]"
  by (simp add: replicate_append_same)

lemma advances_running:
  "k < nat (limit cfg) \<Longrightarrow> k \<le> length (urls cfg) \<Longrightarrow>
   \<exists>st. exec cfg (replicate k Advance) (start cfg) = Some st \<and> phase st = Running \<and>
        length (pending st) = k \<and> started st = k"
proof (induction k)
  case 0
  then show ?case by (simp add: start_def)
next
  case (Suc k)
  then obtain st where st: "exec cfg (replicate k Advance) (start cfg) = Some st"
    "phase st = Running" "length (pending st) = k" "started st = k"
    by auto
  have inv: "invariant cfg st" using st(1) by (rule invariant_exec)
  have more: "started st < length (urls cfg)" using Suc.prems st(4) by simp
  from pushed_after_running [OF inv st(2) more] obtain url rest where
    a: "step cfg Advance st =
      Some (if limit cfg \<le> int (length (pending st)) + 1
            then (pushed st url rest)\<lparr>phase := AwaitRace (pending st @ [(started st, url)])\<rparr>
            else pushed st url rest)"
    by blast
  have "\<not> limit cfg \<le> int (length (pending st)) + 1"
    using Suc.prems st(3) by linarith
  with a have a': "step cfg Advance st = Some (pushed st url rest)" by simp
  have "exec cfg (replicate (Suc k) Advance) (start cfg) = Some (pushed st url rest)"
    using st(1) a' by (simp add: replicate_snoc exec_append del: replicate_Suc)
  then show ?case using st by (auto simp: pushed_def)
qed

lemma race_reached:
  assumes "1 \<le> limit cfg" and "limit cfg \<le> int (length (urls cfg))"
  shows "\<exists>st. exec cfg (replicate (nat (limit cfg)) Advance) (start cfg) = Some st \<and>
    phase st = AwaitRace (pending st) \<and> int (length (pending st)) = limit cfg"
proof -
  obtain k where k: "nat (limit cfg) = Suc k" using assms(1) by (cases "nat (limit cfg)") auto
  have "k < nat (limit cfg)" and "k \<le> length (urls cfg)" using k assms(2) by linarith+
  from advances_running [OF this] obtain st where
    st: "exec cfg (replicate k Advance) (start cfg) = Some st"
    "phase st = Running" "length (pending st) = k" "started st = k"
    by blast
  have inv: "invariant cfg st" using st(1) by (rule invariant_exec)
  have more: "started st < length (urls cfg)" using k assms(2) st(4) by linarith
  from pushed_after_running [OF inv st(2) more] obtain url rest where
    a: "step cfg Advance st =
      Some (if limit cfg \<le> int (length (pending st)) + 1
            then (pushed st url rest)\<lparr>phase := AwaitRace (pending st @ [(started st, url)])\<rparr>
            else pushed st url rest)"
    by blast
  let ?st' = "(pushed st url rest)\<lparr>phase := AwaitRace (pending st @ [(started st, url)])\<rparr>"
  have "limit cfg \<le> int (length (pending st)) + 1" using k st(3) by linarith
  with a have a': "step cfg Advance st = Some ?st'" by simp
  have "exec cfg (replicate (Suc k) Advance) (start cfg) = Some ?st'"
    using st(1) a' by (simp add: replicate_snoc exec_append del: replicate_Suc)
  moreover have "phase ?st' = AwaitRace (pending ?st')" by (simp add: pushed_def)
  moreover have "int (length (pending ?st')) = limit cfg"
    using k st(3) by (simp add: pushed_def)
  ultimately show ?thesis unfolding k by blast
qed

subsection \<open>The concrete runs\<close>

lemma outcome_healthy:
  "draws cfg (fst p) = healthy \<Longrightarrow> outcome_of cfg p = Fulfilled (''Response data from '' @ snd p)"
  by (simp add: outcome_of_def operation_def fetchWithRetry.simps [of _ 0] request_healthy)

lemma outcome_not_found:
  "draws cfg (fst p) = not_found \<Longrightarrow>
   outcome_of cfg p = Rejected (finalFailure (snd p) ''404 Not Found'')"
  by (simp add: outcome_of_def operation_def fetchWithRetry.simps [of _ 0] request_not_found
      not_isServerError_404)

lemma outcome_server_down:
  "draws cfg (fst p) = server_down \<Longrightarrow>
   outcome_of cfg p = Rejected (finalFailure (snd p) ''503 Service Unavailable'')"
proof -
  assume d: "draws cfg (fst p) = server_down"
  have "(3::int) = int 3" by simp
  from exhausted_log [OF always_transient_server_down this, of "snd p" 0 1000]
  show ?thesis by (auto simp: outcome_of_def operation_def d request_server_down)
qed

lemma demo_two_advances: "exec demo [Advance, Advance] (start demo) = Some demo_waiting"
  by (simp add: demo_def start_def apiUrls_def advance_def Let_def demo_waiting_def)

lemma demo_outcomes:
  "outcome_of demo (0, u) = Fulfilled (''Response data from '' @ u)"
  "outcome_of demo (Suc 0, u) = Rejected (finalFailure u ''404 Not Found'')"
  "outcome_of demo (2, u) = Rejected (finalFailure u ''503 Service Unavailable'')"
  "outcome_of demo (3, u) = Fulfilled (''Response data from '' @ u)"
  "outcome_of demo (4, u) = Fulfilled (''Response data from '' @ u)"
  by (simp_all add: outcome_healthy outcome_not_found outcome_server_down demo_def
      mixed_draws_def)

lemma demo_fields: "limit demo = 2" "urls demo = apiUrls"
  by (simp_all add: demo_def)

lemma demo_run: "exec demo demo_events (start demo) = Some demo_returned"
  by (simp add: demo_events_def demo_returned_def demo_results_def start_def advance_def
      Let_def settle_eq settled_state_def splice_js_def demo_outcomes demo_fields apiUrls_def)

lemma demo_second_fails:
  "settles (operation demo (1, ''API-2 (Dashboard Stats)'')) =
     Throws (finalFailure ''API-2 (Dashboard Stats)'' ''404 Not Found'')"
  by (simp add: operation_def demo_def mixed_draws_def fetchWithRetry.simps [of _ 0]
      request_not_found not_isServerError_404)



lemma demo_third:
  "exec demo [Advance, Advance, Settle (1, ''API-2 (Dashboard Stats)''), Advance] (start demo) =
     Some demo_third_started"
  by (simp add: demo_third_started_def start_def advance_def
      Let_def settle_eq settled_state_def splice_js_def demo_outcomes demo_fields apiUrls_def)

lemma twice_fields:
  "urls twice_first = [''API-1 (User Profile)'', ''API-1 (User Profile)'']"
  "urls twice_second = [''API-1 (User Profile)'', ''API-1 (User Profile)'']"
  "limit twice_first = 2" "limit twice_second = 2"
  by (simp_all add: twice_first_def twice_second_def)

lemma twice_outcomes:
  "outcome_of twice_first (0, u) = Rejected (finalFailure u ''404 Not Found'')"
  "outcome_of twice_first (Suc 0, u) = Fulfilled (''Response data from '' @ u)"
  "outcome_of twice_second (0, u) = Fulfilled (''Response data from '' @ u)"
  "outcome_of twice_second (Suc 0, u) = Rejected (finalFailure u ''404 Not Found'')"
  by (simp_all add: outcome_healthy outcome_not_found twice_first_def twice_second_def
      mixed_draws_def first_fails_def)

lemma twice_first_run:
  "exec twice_first
     [Advance, Advance, Settle (0, ''API-1 (User Profile)''), Advance,
      Settle (1, ''API-1 (User Profile)'')] (start twice_first) = Some twice_returned"
  by (simp add: twice_returned_def start_def advance_def
      Let_def settle_eq settled_state_def splice_js_def twice_outcomes twice_fields)

lemma twice_second_run:
  "exec twice_second
     [Advance, Advance, Settle (1, ''API-1 (User Profile)''), Advance,
      Settle (0, ''API-1 (User Profile)'')] (start twice_second) = Some twice_returned"
  by (simp add: twice_returned_def start_def advance_def
      Let_def settle_eq settled_state_def splice_js_def twice_outcomes twice_fields)

subsection \<open>The url inside an entry\<close>

lemma settles_request:
  "settles (fetchWithRetry (request d) k url retries delay) = Resolves (''Response data from '' @ url) \<or>
   settles (fetchWithRetry (request d) k url retries delay) =
     Throws (finalFailure url ''503 Service Unavailable'') \<or>
   settles (fetchWithRetry (request d) k url retries delay) =
     Throws (finalFailure url ''404 Not Found'')"
proof (induction "request d" k url retries delay rule: fetchWithRetry.induct)
  case (1 k url retries delay)
  show ?case
  proof (cases "request d url k")
    case (Resolves data)
    then have "data = ''Response data from '' @ url"
      by (auto simp: request_def mockFetch_def split: if_splits)
    with Resolves show ?thesis by (simp add: fetchWithRetry.simps [of _ k])
  next
    case (Throws message)
    then have m: "message = ''503 Service Unavailable'' \<or> message = ''404 Not Found''"
      by (auto simp: request_def mockFetch_def split: if_splits)
    show ?thesis
    proof (cases "retries > 0 \<and> isServerError message")
      case True
      from 1 [OF Throws True] Throws True show ?thesis
        by (simp add: fetchWithRetry.simps [of _ k] Let_def)
    next
      case False
      then have "fetchWithRetry (request d) k url retries delay =
          \<lparr>settles = Throws (finalFailure url message), calls = 1, waits = []\<rparr>"
        using Throws by (auto simp add: fetchWithRetry.simps [of _ k])
      with m show ?thesis by auto
    qed
  qed
qed

lemma outcome_of_cases:
  "outcome_of cfg p = Fulfilled (''Response data from '' @ snd p) \<or>
   outcome_of cfg p = Rejected (finalFailure (snd p) ''503 Service Unavailable'') \<or>
   outcome_of cfg p = Rejected (finalFailure (snd p) ''404 Not Found'')"
  using settles_request [of "draws cfg (fst p)" 0 "snd p" 3 1000]
  by (auto simp: outcome_of_def operation_def)

lemma target_of_fulfilled: "target_of (Fulfilled (''Response data from '' @ url)) = url"
  by (simp add: target_of_def)

lemma target_of_404: "target_of (Rejected (finalFailure url ''404 Not Found'')) = url"
  by (simp add: target_of_def finalFailure_def cross_mark_def ends_with_def)

lemma target_of_503: "target_of (Rejected (finalFailure url ''503 Service Unavailable'')) = url"
  by (simp add: target_of_def finalFailure_def cross_mark_def ends_with_def)

lemma target_of_outcome: "target_of (outcome_of cfg p) = snd p"
proof -
  consider "outcome_of cfg p = Fulfilled (''Response data from '' @ snd p)"
    | "outcome_of cfg p = Rejected (finalFailure (snd p) ''503 Service Unavailable'')"
    | "outcome_of cfg p = Rejected (finalFailure (snd p) ''404 Not Found'')"
    using outcome_of_cases [of cfg p] by blast
  then show ?thesis
    by cases (simp_all only: target_of_fulfilled target_of_404 target_of_503)
qed

lemma map_snd_promises: "map snd (promises cfg) = urls cfg"
  by (simp add: promises_def)

lemma targets_of_results:
  assumes "invariant cfg st"
  shows "mset (map target_of (results st)) + mset (map snd (pending st)) =
    mset (take (started st) (urls cfg))"
proof -
  have c: "image_mset target_of (image_mset (outcome_of cfg) M) = image_mset snd M" for M
    by (simp add: multiset.map_comp comp_def target_of_outcome)
  from assms have "mset (results st) + image_mset (outcome_of cfg) (mset (pending st)) =
      image_mset (outcome_of cfg) (mset (launched cfg st))"
    by (simp add: invariant_def accounted_def)
  then have "image_mset target_of (mset (results st) + image_mset (outcome_of cfg) (mset (pending st))) =
      image_mset target_of (image_mset (outcome_of cfg) (mset (launched cfg st)))"
    by simp
  then have "image_mset target_of (mset (results st)) + image_mset snd (mset (pending st)) =
      image_mset snd (mset (launched cfg st))"
    by (simp add: c)
  moreover have "map snd (launched cfg st) = take (started st) (urls cfg)"
    by (simp add: launched_def take_map [symmetric] map_snd_promises)
  ultimately show ?thesis
    by (metis mset_map)
qed





subsection \<open>A limit below one\<close>

lemma operation_limit [simp]: "operation (cfg\<lparr>limit := l\<rparr>) p = operation cfg p"
  by (simp add: operation_def)

lemma settle_limit [simp]: "settle (cfg\<lparr>limit := l\<rparr>) p st = settle cfg p st"
  by (simp add: settle_def promise_chain_def)

lemma start_limit [simp]: "start (cfg\<lparr>limit := l\<rparr>) = start cfg"
  by (simp add: start_def)

lemma step_limit_below_one:
  assumes "invariant cfg st" and "limit cfg < 1"
  shows "step cfg ev st = step (cfg\<lparr>limit := 1\<rparr>) ev st"
proof (cases ev)
  case Advance
  show ?thesis
  proof (cases "phase st = Running")
    case True
    have c: "cap cfg = 1" using assms(2) by (simp add: cap_def)
    from assms(1) True c have "pending st = []" and "executing st = []"
      by (auto simp: invariant_def phase_ok_def arrays_ok_def)
    then have "advance cfg st = advance (cfg\<lparr>limit := 1\<rparr>) st"
      using assms(2) by (cases "todo st") (simp_all add: advance_def Let_def)
    then show ?thesis using Advance by simp
  next
    case False
    then show ?thesis using Advance by simp
  qed
next
  case (Settle p)
  then show ?thesis by simp
qed

lemma exec_limit_below_one:
  "invariant cfg st \<Longrightarrow> limit cfg < 1 \<Longrightarrow>
   exec cfg evs st = exec (cfg\<lparr>limit := 1\<rparr>) evs st"
proof (induction evs arbitrary: st)
  case Nil
  then show ?case by simp
next
  case (Cons ev evs)
  from step_limit_below_one [OF Cons.prems] have s: "step cfg ev st = step (cfg\<lparr>limit := 1\<rparr>) ev st" .
  show ?case
  proof (cases "step cfg ev st")
    case None
    with s show ?thesis by simp
  next
    case (Some st')
    from invariant_step [OF Cons.prems(1) Some] have "invariant cfg st'" .
    from Cons.IH [OF this Cons.prems(2)] Some s show ?thesis by simp
  qed
qed

lemma unguarded_outcomes:
  "outcome_of unguarded (0, u) = Fulfilled (''Response data from '' @ u)"
  "outcome_of unguarded (Suc 0, u) = Rejected (finalFailure u ''404 Not Found'')"
  by (simp_all add: outcome_healthy outcome_not_found unguarded_def mixed_draws_def)

lemma unguarded_fields:
  "limit unguarded = 0"
  "urls unguarded = [''API-1 (User Profile)'', ''API-2 (Dashboard Stats)'']"
  by (simp_all add: unguarded_def)

lemma unguarded_first: "exec unguarded [Advance] (start unguarded) = Some unguarded_admitted"
  by (simp add: unguarded_admitted_def start_def advance_def Let_def unguarded_fields)

lemma unguarded_drive:
  "drive unguarded oldest_first (start unguarded) =
     \<lparr>todo = [], started = 2, pending = [], executing = [],
      results = [Fulfilled ''Response data from API-1 (User Profile)'',
                 Rejected (finalFailure ''API-2 (Dashboard Stats)'' ''404 Not Found'')],
      phase = Returned\<rparr>"
  by (simp add: drive.simps next_event_def oldest_first_def start_def advance_def
      Let_def settle_eq settled_state_def splice_js_def unguarded_outcomes unguarded_fields)







section \<open>The claims of the specification\<close>

text \<open>
  C1.  With \<open>1 \<le> limit\<close>, in every state that any interleaving of the body and of
  settlements can reach, the number of operations started and not yet settled is at most
  \<open>limit\<close>; it is below \<open>limit\<close> whenever the body is about to start the next target, and
  exactly \<open>limit\<close> whenever the body waits in \<open>Promise.race\<close>; only the settlement of a
  pending operation makes it smaller; and when \<open>limit\<close> is at most the number of targets,
  the state where \<open>limit\<close> operations are active and the body waits is indeed reached,
  after the first \<open>limit\<close> targets were started.
\<close>

theorem C1_active_at_most_limit:
  assumes "1 \<le> limit cfg" and "exec cfg evs (start cfg) = Some st"
  shows "int (length (pending st)) \<le> limit cfg \<and>
    (phase st = Running \<longrightarrow> int (length (pending st)) < limit cfg) \<and>
    (\<forall>snap. phase st = AwaitRace snap \<longrightarrow> int (length (pending st)) = limit cfg) \<and>
    (\<forall>ev st'. step cfg ev st = Some st' \<and> length (pending st') < length (pending st) \<longrightarrow>
       (\<exists>p. ev = Settle p \<and> p \<in> set (pending st))) \<and>
    (limit cfg \<le> int (length (urls cfg)) \<longrightarrow>
       (\<exists>st'. exec cfg (replicate (nat (limit cfg)) Advance) (start cfg) = Some st' \<and>
          phase st' = AwaitRace (pending st') \<and> int (length (pending st')) = limit cfg))"
proof -
  have inv: "invariant cfg st" using assms(2) by (rule invariant_exec)
  have c: "cap cfg = limit cfg" using assms(1) by (simp add: cap_def)
  have a: "int (length (pending st)) \<le> limit cfg"
    using active_le_cap [OF inv] c by simp
  have b: "phase st = Running \<longrightarrow> int (length (pending st)) < limit cfg"
    using inv c by (auto simp: invariant_def phase_ok_def)
  have r: "\<forall>snap. phase st = AwaitRace snap \<longrightarrow> int (length (pending st)) = limit cfg"
    using inv c by (auto simp: invariant_def phase_ok_def)
  have d: "\<forall>ev st'. step cfg ev st = Some st' \<and> length (pending st') < length (pending st) \<longrightarrow>
       (\<exists>p. ev = Settle p \<and> p \<in> set (pending st))"
    using only_settle_shrinks by blast
  have e: "limit cfg \<le> int (length (urls cfg)) \<longrightarrow>
       (\<exists>st'. exec cfg (replicate (nat (limit cfg)) Advance) (start cfg) = Some st' \<and>
          phase st' = AwaitRace (pending st') \<and> int (length (pending st')) = limit cfg)"
    using race_reached [OF assms(1)] by blast
  show ?thesis using a b r d e by blast
qed

theorem C1_active_at_most_limit_witness:
  "1 \<le> limit demo \<and> exec demo [Advance, Advance] (start demo) = Some demo_waiting \<and>
   int (length (pending demo_waiting)) \<le> limit demo \<and>
   int (length (pending demo_waiting)) = 2"
proof -
  have l: "1 \<le> limit demo" by (simp add: demo_def)
  show ?thesis
    using l demo_two_advances C1_active_at_most_limit [OF l demo_two_advances]
    by (simp add: demo_waiting_def)
qed

text \<open>
  C2.  Under every scheduler the call resolves with a \<open>results\<close> array that has as many
  entries as there are targets, and as a multiset it consists of the outcome of each
  created promise, one entry for each (so none is missing and none is recorded twice),
  whatever the draws are, that is however many targets fail; the same holds for the
  \<open>results\<close> of every reachable state in which the body has returned.
\<close>

theorem C2_one_outcome_per_target:
  "(\<exists>rs. fetchWithConcurrency cfg pick = Resolved rs \<and>
      length rs = length (urls cfg) \<and>
      mset rs = image_mset (outcome_of cfg) (mset (promises cfg))) \<and>
   (\<forall>evs st. exec cfg evs (start cfg) = Some st \<and> phase st = Returned \<longrightarrow>
      length (results st) = length (urls cfg) \<and>
      mset (results st) = image_mset (outcome_of cfg) (mset (promises cfg)))"
proof -
  let ?st = "drive cfg pick (start cfg)"
  have "fetchWithConcurrency cfg pick = Resolved (results ?st)"
    by (rule fetchWithConcurrency_resolves)
  moreover have "length (results ?st) = length (urls cfg)"
    by (rule returned_length [OF drive_invariant drive_returned])
  moreover have "mset (results ?st) = image_mset (outcome_of cfg) (mset (promises cfg))"
    by (rule returned_results [OF drive_invariant drive_returned])
  moreover have "length (results st) = length (urls cfg) \<and>
      mset (results st) = image_mset (outcome_of cfg) (mset (promises cfg))"
    if "exec cfg evs (start cfg) = Some st" and "phase st = Returned" for evs st
    using returned_length [OF invariant_exec [OF that(1)] that(2)]
      returned_results [OF invariant_exec [OF that(1)] that(2)] by simp
  ultimately show ?thesis by blast
qed

theorem C2_one_outcome_per_target_witness:
  "exec demo demo_events (start demo) = Some demo_returned \<and> phase demo_returned = Returned \<and>
   length (results demo_returned) = length (urls demo) \<and>
   length (results demo_returned) = 5 \<and>
   mset (results demo_returned) = image_mset (outcome_of demo) (mset (promises demo))"
proof -
  have p: "phase demo_returned = Returned" by (simp add: demo_returned_def)
  show ?thesis
    using demo_run p C2_one_outcome_per_target [of demo oldest_first]
    by (auto simp add: demo_fields apiUrls_def)
qed

text \<open>
  C3.  A target whose request raises a retryable error (a message containing \<open>50\<close>) on
  every invocation: with a budget of \<open>maxRetries \<ge> 0\<close> retries, \<open>fetchWithRetry\<close> invokes the
  request exactly \<open>maxRetries + 1\<close> times, waits \<open>maxRetries\<close> times, and then rejects.  The
  reason of the rejection is not the last underlying message itself but that message
  wrapped by the final-failure marker: the cross mark, the words \<open>Final Failure for\<close>, the
  target, a colon and the message of the last invocation.  This reason tells that the
  budget was used up: whatever a request \<open>g\<close> does, a call for the same target and budget
  that rejects with this reason has made all its \<open>maxRetries + 1\<close> invocations.
\<close>

theorem C3_retry_budget_exhausted:
  assumes "always_transient fetch url 0" and "0 \<le> maxRetries"
  shows "\<exists>message.
    fetch url (nat maxRetries) = Throws message \<and> isServerError message \<and>
    calls (fetchWithRetry fetch 0 url maxRetries delay) = nat maxRetries + 1 \<and>
    length (waits (fetchWithRetry fetch 0 url maxRetries delay)) = nat maxRetries \<and>
    settles (fetchWithRetry fetch 0 url maxRetries delay) =
      Throws (cross_mark @ '' Final Failure for '' @ url @ '': '' @ message) \<and>
    settles (fetchWithRetry fetch 0 url maxRetries delay) \<noteq> Throws message \<and>
    (\<forall>g delay'. settles (fetchWithRetry g 0 url maxRetries delay') =
         settles (fetchWithRetry fetch 0 url maxRetries delay) \<longrightarrow>
       calls (fetchWithRetry g 0 url maxRetries delay') = nat maxRetries + 1)"
proof -
  have r: "maxRetries = int (nat maxRetries)" using assms(2) by simp
  from exhausted_log [OF assms(1) r, of delay]
  obtain m where m: "fetch url (nat maxRetries) = Throws m"
    "fetchWithRetry fetch 0 url maxRetries delay =
       \<lparr>settles = Throws (finalFailure url m), calls = Suc (nat maxRetries),
        waits = map (\<lambda>i. delay * 2 ^ i) [0..<nat maxRetries]\<rparr>"
    by auto
  have "always_transient fetch url (nat maxRetries)"
    using assms(1) by (simp add: always_transient_def)
  from always_transient_here [OF this] m(1) have s: "isServerError m" by auto
  have ne: "finalFailure url m \<noteq> m"
    using finalFailure_longer [of m url] by auto
  have conv: "calls (fetchWithRetry g 0 url maxRetries delay') = nat maxRetries + 1"
    if "settles (fetchWithRetry g 0 url maxRetries delay') =
      settles (fetchWithRetry fetch 0 url maxRetries delay)" for g delay'
  proof -
    from that m(2) have "settles (fetchWithRetry g 0 url maxRetries delay') =
        Throws (finalFailure url m)" by simp
    from rejection_exhausted [OF this s assms(2)] show ?thesis .
  qed
  have "settles (fetchWithRetry fetch 0 url maxRetries delay) =
      Throws (cross_mark @ '' Final Failure for '' @ url @ '': '' @ m)"
    using m(2) by (simp add: finalFailure_def)
  moreover have "settles (fetchWithRetry fetch 0 url maxRetries delay) \<noteq> Throws m"
    using m(2) ne by simp
  moreover have "calls (fetchWithRetry fetch 0 url maxRetries delay) = nat maxRetries + 1"
    and "length (waits (fetchWithRetry fetch 0 url maxRetries delay)) = nat maxRetries"
    using m(2) by simp_all
  ultimately show ?thesis using m(1) s conv by blast
qed

theorem C3_retry_budget_exhausted_witness:
  "always_transient (request server_down) ''API-1 (User Profile)'' 0 \<and> (0::int) \<le> 3 \<and>
   calls (fetchWithRetry (request server_down) 0 ''API-1 (User Profile)'' 3 1000) = 4 \<and>
   length (waits (fetchWithRetry (request server_down) 0 ''API-1 (User Profile)'' 3 1000)) = 3 \<and>
   settles (fetchWithRetry (request server_down) 0 ''API-1 (User Profile)'' 3 1000) =
     Throws (cross_mark @ '' Final Failure for API-1 (User Profile): 503 Service Unavailable'')"
proof -
  have h: "always_transient (request server_down) ''API-1 (User Profile)'' 0"
    by (rule always_transient_server_down)
  have z: "(0::int) \<le> 3" by simp
  show ?thesis
    using h C3_retry_budget_exhausted [OF h z, of 1000]
    by (simp add: request_server_down)
qed

text \<open>
  C4.  A target whose request raises a non-retryable error (a message without \<open>50\<close>):
  \<open>fetchWithRetry\<close> rejects after this one invocation, without waiting and whatever the
  retry budget is, and the reason is the message wrapped by the final-failure marker
  and the target.
\<close>

theorem C4_permanent_failure_not_retried:
  assumes "fetch url 0 = Throws message" and "\<not> isServerError message"
  shows "fetchWithRetry fetch 0 url maxRetries delay =
    \<lparr>settles = Throws (cross_mark @ '' Final Failure for '' @ url @ '': '' @ message),
     calls = 1, waits = []\<rparr>"
  using assms by (simp add: fetchWithRetry.simps [of fetch 0] finalFailure_def)

theorem C4_permanent_failure_not_retried_witness:
  "request not_found ''API-4 (Settings)'' 0 = Throws ''404 Not Found'' \<and>
   \<not> isServerError ''404 Not Found'' \<and>
   fetchWithRetry (request not_found) 0 ''API-4 (Settings)'' 3 1000 =
    \<lparr>settles = Throws (cross_mark @ '' Final Failure for API-4 (Settings): 404 Not Found''),
     calls = 1, waits = []\<rparr>"
proof -
  have h: "request not_found ''API-4 (Settings)'' 0 = Throws ''404 Not Found''"
    by (rule request_not_found)
  show ?thesis
    using h not_isServerError_404
      C4_permanent_failure_not_retried
        [of "request not_found" "''API-4 (Settings)''" "''404 Not Found''" 3 1000]
    by simp
qed

text \<open>
  C5.  The waits of \<open>fetchWithRetry\<close> follow the backoff policy of the specification:
  the wait before retry number \<open>i\<close> (counted from 0) is \<open>baseDelay * 2 ^ i\<close>, so each wait is
  twice the one before; and a target that always fails with a retryable error waits
  exactly \<open>backoff_delay baseDelay 0\<close>, ..., \<open>backoff_delay baseDelay (maxRetries - 1)\<close>,
  whatever \<open>maxRetries\<close> is: nothing caps the delay.
\<close>

theorem C5_backoff_doubles:
  shows "(\<forall>i < length (waits (fetchWithRetry fetch 0 url maxRetries baseDelay)).
           waits (fetchWithRetry fetch 0 url maxRetries baseDelay) ! i = backoff_delay baseDelay i)
    \<and> (\<forall>i. Suc i < length (waits (fetchWithRetry fetch 0 url maxRetries baseDelay)) \<longrightarrow>
           waits (fetchWithRetry fetch 0 url maxRetries baseDelay) ! Suc i =
             2 * waits (fetchWithRetry fetch 0 url maxRetries baseDelay) ! i)
    \<and> (always_transient fetch url 0 \<and> 0 \<le> maxRetries \<longrightarrow>
           waits (fetchWithRetry fetch 0 url maxRetries baseDelay) =
             map (backoff_delay baseDelay) [0..<nat maxRetries])"
proof -
  let ?w = "waits (fetchWithRetry fetch 0 url maxRetries baseDelay)"
  have w: "?w = map (\<lambda>i. baseDelay * 2 ^ i) [0..<length ?w]"
    by (rule waits_backoff)
  have a: "?w ! i = backoff_delay baseDelay i" if "i < length ?w" for i
  proof -
    have "?w ! i = map (\<lambda>i. baseDelay * 2 ^ i) [0..<length ?w] ! i"
      using w by simp
    also have "\<dots> = baseDelay * 2 ^ i" using that by simp
    finally show ?thesis by (simp add: backoff_delay_def)
  qed
  have b: "?w ! Suc i = 2 * ?w ! i" if "Suc i < length ?w" for i
    using a [of i] a [of "Suc i"] that by (simp add: backoff_delay_def)
  have c: "?w = map (backoff_delay baseDelay) [0..<nat maxRetries]"
    if t: "always_transient fetch url 0" and r: "0 \<le> maxRetries"
  proof -
    have e: "maxRetries = int (nat maxRetries)" using r by simp
    from exhausted_log [OF t e, of baseDelay]
    have "?w = map (\<lambda>i. baseDelay * 2 ^ i) [0..<nat maxRetries]" by auto
    then show ?thesis by (simp add: backoff_delay_def [abs_def])
  qed
  show ?thesis using a b c by blast
qed

theorem C5_backoff_doubles_witness:
  "always_transient (request server_down) ''API-1 (User Profile)'' 0 \<and> (0::int) \<le> 3 \<and>
   waits (fetchWithRetry (request server_down) 0 ''API-1 (User Profile)'' 3 1000) =
     [1000, 2000, 4000] \<and>
   (1::nat) < length (waits (fetchWithRetry (request server_down) 0 ''API-1 (User Profile)'' 3 1000)) \<and>
   waits (fetchWithRetry (request server_down) 0 ''API-1 (User Profile)'' 3 1000) ! 1 =
     backoff_delay 1000 1"
proof -
  have h: "always_transient (request server_down) ''API-1 (User Profile)'' 0"
    by (rule always_transient_server_down)
  have e: "map (backoff_delay 1000) [0..<nat 3] = [1000, 2000, 4000]"
    by (simp add: backoff_delay_def upt_conv_Cons)
  show ?thesis
    using h e C5_backoff_doubles [of "request server_down" "''API-1 (User Profile)''" 3 1000]
    by (simp add: backoff_delay_def)
qed

text \<open>
  C6 (as the code behaves).  \<open>fetchWithConcurrency\<close> does not validate \<open>limit\<close>.  With
  \<open>limit < 1\<close> no configuration error is raised: every interleaving runs exactly as it
  does with \<open>limit = 1\<close>, the first target is admitted by the first stretch of the body,
  and under every scheduler the call resolves, so it does not hang.
\<close>

theorem C6_limit_below_one_is_not_rejected:
  assumes "limit cfg < 1"
  shows "exec cfg evs (start cfg) = exec (cfg\<lparr>limit := 1\<rparr>) evs (start (cfg\<lparr>limit := 1\<rparr>)) \<and>
    (\<forall>url rest. urls cfg = url # rest \<longrightarrow>
       exec cfg [Advance] (start cfg) =
         Some \<lparr>todo = rest, started = 1, pending = [(0, url)], executing = [(0, url)],
               results = [], phase = AwaitRace [(0, url)]\<rparr>) \<and>
    (\<exists>rs. fetchWithConcurrency cfg pick = Resolved rs)"
proof -
  have a: "exec cfg evs (start cfg) = exec (cfg\<lparr>limit := 1\<rparr>) evs (start (cfg\<lparr>limit := 1\<rparr>))"
    using exec_limit_below_one [OF invariant_start assms] by simp
  have b: "exec cfg [Advance] (start cfg) =
         Some \<lparr>todo = rest, started = 1, pending = [(0, url)], executing = [(0, url)],
               results = [], phase = AwaitRace [(0, url)]\<rparr>"
    if "urls cfg = url # rest" for url rest
    using that assms by (simp add: start_def advance_def Let_def)
  have c: "\<exists>rs. fetchWithConcurrency cfg pick = Resolved rs"
    using fetchWithConcurrency_resolves [of cfg pick] by blast
  show ?thesis using a b c by blast
qed

text \<open>
  The claim C6 as the specification states it fails: with \<open>limit = 0\<close> and two targets the
  first target is admitted at once, and the call resolves with both outcomes instead of
  failing with a configuration error.
\<close>

theorem C6_limit_zero_counterexample:
  "limit unguarded = 0 \<and>
   exec unguarded [Advance] (start unguarded) = Some unguarded_admitted \<and>
   pending unguarded_admitted = [(0, ''API-1 (User Profile)'')] \<and>
   fetchWithConcurrency unguarded oldest_first =
     Resolved [Fulfilled ''Response data from API-1 (User Profile)'',
               Rejected (finalFailure ''API-2 (Dashboard Stats)'' ''404 Not Found'')]"
proof -
  have "fetchWithConcurrency unguarded oldest_first =
     Resolved [Fulfilled ''Response data from API-1 (User Profile)'',
               Rejected (finalFailure ''API-2 (Dashboard Stats)'' ''404 Not Found'')]"
    by (simp add: fetchWithConcurrency_def unguarded_drive)
  moreover have "pending unguarded_admitted = [(0, ''API-1 (User Profile)'')]"
    by (simp add: unguarded_admitted_def)
  ultimately show ?thesis
    using unguarded_fields(1) unguarded_first by blast
qed

theorem C6_limit_below_one_is_not_rejected_witness:
  "limit unguarded < 1 \<and>
   urls unguarded = ''API-1 (User Profile)'' # [''API-2 (Dashboard Stats)''] \<and>
   exec unguarded [Advance] (start unguarded) =
     exec (unguarded\<lparr>limit := 1\<rparr>) [Advance] (start (unguarded\<lparr>limit := 1\<rparr>)) \<and>
   exec unguarded [Advance] (start unguarded) =
     Some \<lparr>todo = [''API-2 (Dashboard Stats)''], started = 1,
           pending = [(0, ''API-1 (User Profile)'')],
           executing = [(0, ''API-1 (User Profile)'')],
           results = [], phase = AwaitRace [(0, ''API-1 (User Profile)'')]\<rparr> \<and>
   (\<exists>rs. fetchWithConcurrency unguarded oldest_first = Resolved rs)"
proof -
  have l: "limit unguarded < 1" by (simp add: unguarded_fields)
  have u: "urls unguarded = ''API-1 (User Profile)'' # [''API-2 (Dashboard Stats)'']"
    by (simp add: unguarded_fields)
  from C6_limit_below_one_is_not_rejected [OF l, of "[Advance]" oldest_first] u l
  show ?thesis by blast
qed

text \<open>
  C7.  With \<open>1 \<le> limit\<close>, under every scheduler the promise of \<open>fetchWithConcurrency\<close>
  resolves; no interleaving reaches a state where the body has been rejected at an
  \<open>await\<close>, because every chain ends in \<open>.catch\<close> and so never rejects.  The returned
  \<open>results\<close> hold the outcome of every target, and a target whose \<open>fetchWithRetry\<close>
  throws \<open>message\<close> appears there as the entry \<open>Rejected message\<close>.  The settlement of one
  operation, failed or not, appends its own entry and removes only itself from the
  pending operations: the targets not yet started and the other pending operations are
  untouched.  Every interleaving is finite (at most \<open>3 * N + 1\<close> events for \<open>N\<close> targets),
  and it can only stop in the state where the body has returned: in every other
  reachable state some event is enabled.
\<close>

theorem C7_failures_stay_inside_results:
  assumes "1 \<le> limit cfg"
  shows "(\<exists>rs. fetchWithConcurrency cfg pick = Resolved rs \<and>
       (\<forall>p \<in> set (promises cfg). outcome_of cfg p \<in> set rs) \<and>
       (\<forall>p \<in> set (promises cfg). \<forall>message.
          settles (operation cfg p) = Throws message \<longrightarrow> Rejected message \<in> set rs)) \<and>
    (\<forall>evs st e. exec cfg evs (start cfg) = Some st \<longrightarrow> phase st \<noteq> Failed e) \<and>
    (\<forall>evs st p st'. exec cfg evs (start cfg) = Some st \<and> step cfg (Settle p) st = Some st' \<longrightarrow>
       pending st' = remove1 p (pending st) \<and> todo st' = todo st \<and>
       results st' = results st @ [outcome_of cfg p] \<and> (\<forall>e. phase st' \<noteq> Failed e)) \<and>
    (\<forall>evs st. exec cfg evs (start cfg) = Some st \<longrightarrow>
       length evs \<le> 3 * length (urls cfg) + 1 \<and>
       (phase st \<noteq> Returned \<longrightarrow> (\<exists>ev st'. step cfg ev st = Some st')))"
proof -
  let ?rs = "results (drive cfg pick (start cfg))"
  have r: "fetchWithConcurrency cfg pick = Resolved ?rs"
    by (rule fetchWithConcurrency_resolves)
  have s: "set ?rs = outcome_of cfg ` set (promises cfg)"
    by (rule results_set [OF returned_results [OF drive_invariant drive_returned]])
  have a: "\<forall>p \<in> set (promises cfg). outcome_of cfg p \<in> set ?rs"
    using s by blast
  have b: "\<forall>p \<in> set (promises cfg). \<forall>message.
      settles (operation cfg p) = Throws message \<longrightarrow> Rejected message \<in> set ?rs"
  proof (intro ballI allI impI)
    fix p message
    assume p: "p \<in> set (promises cfg)" and t: "settles (operation cfg p) = Throws message"
    from t have "outcome_of cfg p = Rejected message" by (simp add: outcome_of_def)
    with a p show "Rejected message \<in> set ?rs" by metis
  qed
  have c: "\<forall>evs st e. exec cfg evs (start cfg) = Some st \<longrightarrow> phase st \<noteq> Failed e"
    using never_failed [OF invariant_exec] by blast
  have d: "pending st' = remove1 p (pending st) \<and> todo st' = todo st \<and>
       results st' = results st @ [outcome_of cfg p] \<and> (\<forall>e. phase st' \<noteq> Failed e)"
    if e: "exec cfg evs (start cfg) = Some st" and t: "step cfg (Settle p) st = Some st'"
    for evs st p st'
  proof -
    have "invariant cfg st'"
      using invariant_step [OF invariant_exec [OF e] t] .
    then have "\<forall>e. phase st' \<noteq> Failed e" using never_failed by blast
    with settle_step_fields [OF t] show ?thesis by blast
  qed
  have f: "length evs \<le> 3 * length (urls cfg) + 1 \<and>
       (phase st \<noteq> Returned \<longrightarrow> (\<exists>ev st'. step cfg ev st = Some st'))"
    if e: "exec cfg evs (start cfg) = Some st" for evs st
    using run_length [OF e] progress [OF invariant_exec [OF e]] by blast
  show ?thesis using r a b c d f by blast
qed

theorem C7_failures_stay_inside_results_witness:
  "1 \<le> limit demo \<and>
   (1, ''API-2 (Dashboard Stats)'') \<in> set (promises demo) \<and>
   settles (operation demo (1, ''API-2 (Dashboard Stats)'')) =
     Throws (finalFailure ''API-2 (Dashboard Stats)'' ''404 Not Found'') \<and>
   (\<exists>rs. fetchWithConcurrency demo oldest_first = Resolved rs \<and>
      Rejected (finalFailure ''API-2 (Dashboard Stats)'' ''404 Not Found'') \<in> set rs)"
proof -
  have l: "1 \<le> limit demo" by (simp add: demo_fields)
  have m: "(1, ''API-2 (Dashboard Stats)'') \<in> set (promises demo)"
    by (simp add: promises_def demo_fields apiUrls_def)
  from C7_failures_stay_inside_results [OF l, of oldest_first]
  obtain rs where rs: "fetchWithConcurrency demo oldest_first = Resolved rs"
    "\<forall>p \<in> set (promises demo). \<forall>message.
       settles (operation demo p) = Throws message \<longrightarrow> Rejected message \<in> set rs"
    by blast
  from rs(2) m demo_second_fails
  have "Rejected (finalFailure ''API-2 (Dashboard Stats)'' ''404 Not Found'') \<in> set rs"
    by blast
  with l m demo_second_fails rs(1) show ?thesis by blast
qed

text \<open>
  C8.  Five targets \<open>a, b, c, d, e\<close> and \<open>limit = 2\<close>.  The first two stretches of the
  body start \<open>a\<close> and \<open>b\<close> with no settlement in between, and then the body waits in
  \<open>Promise.race\<close>.  In every reachable state the pending operations are a subsequence of
  the targets started so far, taken in input order, and there are at most two of them
  (at most one when the body is about to start the next target); when target number
  \<open>j\<close> has been started, fewer than two of the targets before it are still pending, so
  \<open>c\<close> is started only after \<open>a\<close> or \<open>b\<close> has settled; every started target is pending or
  has its entry in \<open>results\<close>; and when the body has returned, \<open>results\<close> has the five
  outcomes.  Under every scheduler the call resolves with five entries, each fulfilled
  or rejected.
\<close>

theorem C8_five_targets_limit_two:
  assumes "urls cfg = [a, b, c, d, e]" and "limit cfg = 2"
  shows "exec cfg [Advance, Advance] (start cfg) =
      Some \<lparr>todo = [c, d, e], started = 2, pending = [(0, a), (1, b)],
            executing = [(0, a), (1, b)], results = [], phase = AwaitRace [(0, a), (1, b)]\<rparr> \<and>
    (\<forall>evs st. exec cfg evs (start cfg) = Some st \<longrightarrow>
       subseq (pending st) (take (started st) [(0, a), (1, b), (2, c), (3, d), (4, e)]) \<and>
       length (pending st) \<le> 2 \<and>
       (phase st = Running \<longrightarrow> length (pending st) \<le> 1) \<and>
       (\<forall>j < started st. length (filter (\<lambda>q. fst q < j) (pending st)) < 2) \<and>
       (2 < started st \<longrightarrow> (0, a) \<notin> set (pending st) \<or> (1, b) \<notin> set (pending st)) \<and>
       length (results st) + length (pending st) = started st \<and>
       (phase st = Returned \<longrightarrow>
          length (results st) = 5 \<and>
          mset (results st) =
            mset (map (outcome_of cfg) [(0, a), (1, b), (2, c), (3, d), (4, e)]))) \<and>
    (\<exists>rs. fetchWithConcurrency cfg pick = Resolved rs \<and> length rs = 5 \<and>
       (\<forall>r \<in> set rs. (\<exists>v. r = Fulfilled v) \<or> (\<exists>reason. r = Rejected reason)))"
proof -
  have p: "promises cfg = [(0, a), (1, b), (2, c), (3, d), (4, e)]"
    using assms(1) by (simp add: promises_def)
  have c: "cap cfg = 2" using assms(2) by (simp add: cap_def)
  have first: "exec cfg [Advance, Advance] (start cfg) =
      Some \<lparr>todo = [c, d, e], started = 2, pending = [(0, a), (1, b)],
            executing = [(0, a), (1, b)], results = [], phase = AwaitRace [(0, a), (1, b)]\<rparr>"
    by (simp add: start_def advance_def Let_def assms)
  have every: "subseq (pending st) (take (started st) [(0, a), (1, b), (2, c), (3, d), (4, e)]) \<and>
       length (pending st) \<le> 2 \<and>
       (phase st = Running \<longrightarrow> length (pending st) \<le> 1) \<and>
       (\<forall>j < started st. length (filter (\<lambda>q. fst q < j) (pending st)) < 2) \<and>
       (2 < started st \<longrightarrow> (0, a) \<notin> set (pending st) \<or> (1, b) \<notin> set (pending st)) \<and>
       length (results st) + length (pending st) = started st \<and>
       (phase st = Returned \<longrightarrow>
          length (results st) = 5 \<and>
          mset (results st) =
            mset (map (outcome_of cfg) [(0, a), (1, b), (2, c), (3, d), (4, e)]))"
    if x: "exec cfg evs (start cfg) = Some st" for evs st
  proof -
    have inv: "invariant cfg st" using x by (rule invariant_exec)
    have s: "subseq (pending st) (take (started st) [(0, a), (1, b), (2, c), (3, d), (4, e)])"
      using inv p by (simp add: invariant_def arrays_ok_def launched_def)
    have l: "length (pending st) \<le> 2"
      using active_le_cap [OF inv] c by simp
    have r: "phase st = Running \<longrightarrow> length (pending st) \<le> 1"
      using inv c by (auto simp: invariant_def phase_ok_def)
    have adm: "\<forall>j < started st. length (filter (\<lambda>q. fst q < j) (pending st)) < 2"
      using inv c by (simp add: invariant_def admitted_ok_def)
    have ab: "(0, a) \<notin> set (pending st) \<or> (1, b) \<notin> set (pending st)" if "2 < started st"
    proof (rule ccontr)
      assume "\<not> ((0, a) \<notin> set (pending st) \<or> (1, b) \<notin> set (pending st))"
      then have "2 \<le> length (filter (\<lambda>q. fst q < 2) (pending st))"
        by (intro two_in_filter [of "(0, a)" _ "(1, b)"]) auto
      with adm that show False by (auto simp: not_less [symmetric])
    qed
    have ret: "length (results st) = 5 \<and>
          mset (results st) =
            mset (map (outcome_of cfg) [(0, a), (1, b), (2, c), (3, d), (4, e)])"
      if "phase st = Returned"
      using returned_length [OF inv that] returned_results [OF inv that] p assms(1) by simp
    show ?thesis using s l r adm ab started_accounted [OF inv] ret by blast
  qed
  have last: "\<exists>rs. fetchWithConcurrency cfg pick = Resolved rs \<and> length rs = 5 \<and>
       (\<forall>r \<in> set rs. (\<exists>v. r = Fulfilled v) \<or> (\<exists>reason. r = Rejected reason))"
  proof -
    have "length (results (drive cfg pick (start cfg))) = 5"
      using returned_length [OF drive_invariant drive_returned, of cfg pick] assms(1) by simp
    moreover have "(\<exists>v. r = Fulfilled v) \<or> (\<exists>reason. r = Rejected reason)" for r :: outcome
      by (cases r) auto
    ultimately show ?thesis
      using fetchWithConcurrency_resolves [of cfg pick] by blast
  qed
  show ?thesis using first every last by blast
qed

theorem C8_five_targets_limit_two_witness:
  "urls demo = [''API-1 (User Profile)'', ''API-2 (Dashboard Stats)'', ''API-3 (Notifications)'',
     ''API-4 (Settings)'', ''API-5 (Friends List)''] \<and> limit demo = 2 \<and>
   exec demo [Advance, Advance] (start demo) = Some demo_waiting \<and>
   exec demo [Advance, Advance, Settle (1, ''API-2 (Dashboard Stats)''), Advance] (start demo) =
     Some demo_third_started \<and>
   2 < started demo_third_started \<and>
   (1, ''API-2 (Dashboard Stats)'') \<notin> set (pending demo_third_started) \<and>
   exec demo demo_events (start demo) = Some demo_returned \<and>
   phase demo_returned = Returned \<and> length (results demo_returned) = 5"
proof -
  have u: "urls demo = [''API-1 (User Profile)'', ''API-2 (Dashboard Stats)'',
     ''API-3 (Notifications)'', ''API-4 (Settings)'', ''API-5 (Friends List)'']"
    by (simp add: demo_fields apiUrls_def)
  have l: "limit demo = 2" by (simp add: demo_fields)
  note t = C8_five_targets_limit_two [OF u l, of oldest_first]
  from t have w: "exec demo [Advance, Advance] (start demo) = Some demo_waiting"
    by (simp add: demo_waiting_def)
  from t have "\<forall>evs st. exec demo evs (start demo) = Some st \<longrightarrow>
      (phase st = Returned \<longrightarrow> length (results st) = 5)"
    by blast
  with demo_run have r: "phase demo_returned = Returned \<longrightarrow> length (results demo_returned) = 5"
    by blast
  have p: "phase demo_returned = Returned" by (simp add: demo_returned_def)
  have s: "2 < started demo_third_started \<and>
      (1, ''API-2 (Dashboard Stats)'') \<notin> set (pending demo_third_started)"
    by (simp add: demo_third_started_def)
  show ?thesis using u l w demo_third s demo_run p r by blast
qed

text \<open>
  C9 (as the code behaves).  The entries of \<open>results\<close> carry no index and no key
  field, and they stand in completion order; but the url of the target can be read back
  from each entry, since the value of a fulfilled entry and the reason of a rejected
  entry contain it: \<open>target_of\<close> maps the entry pushed for a promise to the url of that
  promise, so in every reachable state the urls read from \<open>results\<close> together with the
  urls of the pending operations are the urls started so far, and the urls read from the
  returned \<open>results\<close> are exactly the urls of the call, each as often as it was
  submitted.
\<close>

theorem C9_outcome_carries_url:
  "target_of (outcome_of cfg p) = snd p \<and>
   (\<forall>evs st. exec cfg evs (start cfg) = Some st \<longrightarrow>
      mset (map target_of (results st)) + mset (map snd (pending st)) =
        mset (take (started st) (urls cfg)) \<and>
      (phase st = Returned \<longrightarrow> mset (map target_of (results st)) = mset (urls cfg))) \<and>
   (\<exists>rs. fetchWithConcurrency cfg pick = Resolved rs \<and>
      mset (map target_of rs) = mset (urls cfg))"
proof -
  have a: "mset (map target_of (results st)) + mset (map snd (pending st)) =
        mset (take (started st) (urls cfg)) \<and>
      (phase st = Returned \<longrightarrow> mset (map target_of (results st)) = mset (urls cfg))"
    if "exec cfg evs (start cfg) = Some st" for evs st
  proof -
    have inv: "invariant cfg st" using that by (rule invariant_exec)
    have "mset (map target_of (results st)) = mset (urls cfg)" if r: "phase st = Returned"
      using targets_of_results [OF inv] returned_all_launched(1,2) [OF inv r] by simp
    with targets_of_results [OF inv] show ?thesis by blast
  qed
  let ?st = "drive cfg pick (start cfg)"
  have "mset (map target_of (results ?st)) = mset (urls cfg)"
    using targets_of_results [OF drive_invariant, of cfg pick]
      returned_all_launched(1,2) [OF drive_invariant drive_returned, of cfg pick] by simp
  then have b: "\<exists>rs. fetchWithConcurrency cfg pick = Resolved rs \<and>
      mset (map target_of rs) = mset (urls cfg)"
    using fetchWithConcurrency_resolves [of cfg pick] by blast
  show ?thesis using a b target_of_outcome by blast
qed

text \<open>
  The claim C9 as the specification states it fails when a url is submitted twice: the
  same call can return the same \<open>results\<close> in two runs, in one of which the first target
  was rejected and the second fulfilled, and in the other the other way round.  Nothing
  in \<open>results\<close> tells which of the two targets an entry comes from.
\<close>

theorem C9_same_results_counterexample:
  "urls twice_first = urls twice_second \<and> limit twice_first = limit twice_second \<and>
   exec twice_first
     [Advance, Advance, Settle (0, ''API-1 (User Profile)''), Advance,
      Settle (1, ''API-1 (User Profile)'')] (start twice_first) = Some twice_returned \<and>
   exec twice_second
     [Advance, Advance, Settle (1, ''API-1 (User Profile)''), Advance,
      Settle (0, ''API-1 (User Profile)'')] (start twice_second) = Some twice_returned \<and>
   phase twice_returned = Returned \<and>
   outcome_of twice_first (0, ''API-1 (User Profile)'') =
     Rejected (finalFailure ''API-1 (User Profile)'' ''404 Not Found'') \<and>
   outcome_of twice_second (0, ''API-1 (User Profile)'') =
     Fulfilled ''Response data from API-1 (User Profile)''"
proof -
  have "phase twice_returned = Returned" by (simp add: twice_returned_def)
  moreover have "outcome_of twice_second (0, ''API-1 (User Profile)'') =
     Fulfilled ''Response data from API-1 (User Profile)''"
    by (simp add: twice_outcomes)
  ultimately show ?thesis
    using twice_first_run twice_second_run twice_outcomes(1) twice_fields by simp
qed

theorem C9_outcome_carries_url_witness:
  "exec demo demo_events (start demo) = Some demo_returned \<and> phase demo_returned = Returned \<and>
   map target_of (results demo_returned) =
     [''API-2 (Dashboard Stats)'', ''API-1 (User Profile)'', ''API-3 (Notifications)'',
      ''API-5 (Friends List)'', ''API-4 (Settings)''] \<and>
   mset (map target_of (results demo_returned)) = mset (urls demo)"
proof -
  have p: "phase demo_returned = Returned" by (simp add: demo_returned_def)
  have m: "map target_of (results demo_returned) =
     [''API-2 (Dashboard Stats)'', ''API-1 (User Profile)'', ''API-3 (Notifications)'',
      ''API-5 (Friends List)'', ''API-4 (Settings)'']"
    unfolding demo_returned_def demo_results_def
    by (simp add: target_of_404 target_of_503) (simp add: target_of_def)
  from C9_outcome_carries_url [of demo "(0, [])" oldest_first]
  have "\<forall>evs st. exec demo evs (start demo) = Some st \<longrightarrow>
      (phase st = Returned \<longrightarrow> mset (map target_of (results st)) = mset (urls demo))"
    by blast
  with demo_run p have "mset (map target_of (results demo_returned)) = mset (urls demo)"
    by blast
  with demo_run p m show ?thesis by simp
qed

text \<open>
  C10.  With \<open>limit \<le> 0\<close> the check \<open>executing.length >= limit\<close> holds after every push,
  when the array is not empty: in every reachable state where the body waits in
  \<open>Promise.race\<close>, the awaited array is not empty and equals the pending operations; at
  most one operation is pending, and it is the one started last; the body starts the
  next target only when nothing is pending; every state but the final one has an enabled
  event (no deadlock); and under every scheduler the call resolves with one outcome for
  each target.
\<close>

theorem C10_limit_below_one_is_sequential:
  assumes "limit cfg \<le> 0" and "exec cfg evs (start cfg) = Some st"
  shows "(\<forall>snap. phase st = AwaitRace snap \<longrightarrow> snap \<noteq> [] \<and> snap = pending st) \<and>
    length (pending st) \<le> 1 \<and>
    (\<forall>q \<in> set (pending st). Suc (fst q) = started st) \<and>
    (phase st = Running \<longrightarrow> pending st = []) \<and>
    (phase st \<noteq> Returned \<longrightarrow> (\<exists>ev st'. step cfg ev st = Some st')) \<and>
    (\<exists>rs. fetchWithConcurrency cfg pick = Resolved rs \<and>
       length rs = length (urls cfg) \<and>
       mset rs = image_mset (outcome_of cfg) (mset (promises cfg)))"
proof -
  have inv: "invariant cfg st" using assms(2) by (rule invariant_exec)
  have c: "cap cfg = 1" using assms(1) by (simp add: cap_def)
  have a: "\<forall>snap. phase st = AwaitRace snap \<longrightarrow> snap \<noteq> [] \<and> snap = pending st"
    using inv by (auto simp: invariant_def phase_ok_def)
  have b: "length (pending st) \<le> 1"
    using active_le_cap [OF inv] c by simp
  have d: "\<forall>q \<in> set (pending st). Suc (fst q) = started st"
    using only_latest_pending [OF inv assms(1)] by blast
  have e: "phase st = Running \<longrightarrow> pending st = []"
    using inv c by (auto simp: invariant_def phase_ok_def)
  have f: "phase st \<noteq> Returned \<longrightarrow> (\<exists>ev st'. step cfg ev st = Some st')"
    using progress [OF inv] by blast
  let ?rs = "results (drive cfg pick (start cfg))"
  have "fetchWithConcurrency cfg pick = Resolved ?rs"
    by (rule fetchWithConcurrency_resolves)
  moreover have "length ?rs = length (urls cfg)"
    by (rule returned_length [OF drive_invariant drive_returned])
  moreover have "mset ?rs = image_mset (outcome_of cfg) (mset (promises cfg))"
    by (rule returned_results [OF drive_invariant drive_returned])
  ultimately have g: "\<exists>rs. fetchWithConcurrency cfg pick = Resolved rs \<and>
       length rs = length (urls cfg) \<and>
       mset rs = image_mset (outcome_of cfg) (mset (promises cfg))"
    by blast
  show ?thesis using a b d e f g by blast
qed

theorem C10_limit_below_one_is_sequential_witness:
  "limit unguarded \<le> 0 \<and>
   exec unguarded [Advance] (start unguarded) = Some unguarded_admitted \<and>
   phase unguarded_admitted = AwaitRace [(0, ''API-1 (User Profile)'')] \<and>
   pending unguarded_admitted = [(0, ''API-1 (User Profile)'')] \<and>
   length (pending unguarded_admitted) \<le> 1 \<and>
   (\<exists>ev st'. step unguarded ev unguarded_admitted = Some st') \<and>
   (\<exists>rs. fetchWithConcurrency unguarded oldest_first = Resolved rs \<and>
      length rs = length (urls unguarded))"
proof -
  have l: "limit unguarded \<le> 0" by (simp add: unguarded_fields)
  have p: "phase unguarded_admitted = AwaitRace [(0, ''API-1 (User Profile)'')]"
    "pending unguarded_admitted = [(0, ''API-1 (User Profile)'')]"
    by (simp_all add: unguarded_admitted_def)
  have n: "phase unguarded_admitted \<noteq> Returned" using p(1) by simp
  from C10_limit_below_one_is_sequential [OF l unguarded_first, of oldest_first] n
  have "length (pending unguarded_admitted) \<le> 1"
    and "\<exists>ev st'. step unguarded ev unguarded_admitted = Some st'"
    and "\<exists>rs. fetchWithConcurrency unguarded oldest_first = Resolved rs \<and>
      length rs = length (urls unguarded)"
    by blast+
  with l unguarded_first p show ?thesis by blast
qed

end
